theory Spec2Isabelle
  imports Complex_Main
begin

section \<open>Data model (src/types/search.ts)\<close>

text \<open>
  JavaScript strings are modelled as \<^typ>\<open>string\<close>, one \<^typ>\<open>char\<close> per code unit.
  A DOM \<open>Range\<close> inside one text node is the node's identity and two offsets; a
  \<open>Text\<close> node is its identity and its character data. The fields \<open>text\<close> and
  \<open>range\<close> of \<open>MatchData\<close> are \<open>text'\<close> and \<open>range'\<close>.
\<close>

record SearchOptions =
  isRegex :: bool
  caseSensitive :: bool
  wholeWord :: bool

record dom_range =
  startContainer :: nat
  range_start :: nat
  range_end :: nat

record text_node =
  node_id :: nat
  textContent :: string

record MatchData =
  text' :: string
  range' :: dom_range
  index :: nat
  node :: text_node
  startOffset :: nat
  endOffset :: nat

record SearchResult =
  matches :: "MatchData list"
  totalCount :: nat
  searchTime :: real

section \<open>The host page\<close>

text \<open>
  What the code reads and writes outside its own objects. \<open>CSS.highlights\<close> is the
  registry of named highlight groups; it is \<open>None\<close> in a browser without the CSS
  Custom Highlight API, which is exactly when \<open>HighlightManager.isSupported()\<close> is
  false. A \<open>Highlight\<close> object is the list of ranges it was constructed from.
  \<open>console.warn\<close> and the scroll requests handed to \<open>requestAnimationFrame\<close> are
  logs, oldest entry first.
\<close>

type_synonym highlight = "dom_range list"

record page =
  CSS_highlights :: "(string \<rightharpoonup> highlight) option"
  console_warn :: "int list"
  scroll_requests :: "dom_range list"

text \<open>
  A call either returns or throws; the state it leaves behind is kept in both cases,
  as a JavaScript exception does not undo the assignments made before it.
\<close>

datatype exn = TypeError | ReferenceError

datatype outcome = Returned | Threw exn

text \<open>
  \<open>CSS.highlights.delete(name)\<close> and \<open>CSS.highlights.set(name, h)\<close>. Where the
  registry does not exist the member access is on \<open>undefined\<close> and throws.
\<close>

definition highlights_delete :: "string \<Rightarrow> 'a page_scheme \<Rightarrow> 'a page_scheme option" where
  "highlights_delete name pg =
     (case CSS_highlights pg of
        None \<Rightarrow> None
      | Some registry \<Rightarrow> Some (pg\<lparr>CSS_highlights := Some (registry(name := None))\<rparr>))"

definition highlights_set ::
  "string \<Rightarrow> highlight \<Rightarrow> 'a page_scheme \<Rightarrow> 'a page_scheme option" where
  "highlights_set name h pg =
     (case CSS_highlights pg of
        None \<Rightarrow> None
      | Some registry \<Rightarrow> Some (pg\<lparr>CSS_highlights := Some (registry(name \<mapsto> h))\<rparr>))"

text \<open>
  \<open>new Highlight(ranges)\<close>. The constructor comes with the registry: in a browser
  without the API the name \<open>Highlight\<close> is not defined and the expression throws a
  \<open>ReferenceError\<close>.
\<close>

definition new_Highlight :: "dom_range list \<Rightarrow> 'a page_scheme \<Rightarrow> highlight option" where
  "new_Highlight ranges pg =
     (case CSS_highlights pg of
        None \<Rightarrow> None
      | Some registry \<Rightarrow> Some ranges)"

section \<open>HighlightManager\<close>

text \<open>The field \<open>matches\<close> of the class is \<open>hm_matches\<close> here, as \<open>matches\<close> is
  already the field of \<open>SearchResult\<close>.\<close>

record HighlightManager =
  allMatchesHighlight :: "highlight option"
  currentMatchHighlight :: "highlight option"
  hm_matches :: "MatchData list"
  currentIndex :: int

definition new_HighlightManager :: HighlightManager where
  "new_HighlightManager =
     \<lparr>allMatchesHighlight = None, currentMatchHighlight = None, hm_matches = [],
      currentIndex = - 1\<rparr>"

definition ALL_MATCHES_NAME :: string where
  "ALL_MATCHES_NAME = ''webgrep-search-matches''"

definition CURRENT_MATCH_NAME :: string where
  "CURRENT_MATCH_NAME = ''webgrep-search-current''"

definition isSupported :: "'a page_scheme \<Rightarrow> bool" where
  "isSupported pg = (CSS_highlights pg \<noteq> None)"

text \<open>
  A method runs on the manager and the page (or any richer record of the browser's
  state that contains the page) and leaves both behind.
\<close>

type_synonym 'a hm_state = "HighlightManager \<times> 'a page_scheme"

definition scrollToMatch :: "int \<Rightarrow> 'a hm_state \<Rightarrow> outcome \<times> 'a hm_state" where
  "scrollToMatch i s =
     (case s of (this, pg) \<Rightarrow>
        if i < 0 \<or> i \<ge> int (length (hm_matches this)) then (Returned, this, pg)
        else (Returned, this,
              pg\<lparr>scroll_requests := scroll_requests pg @ [range' (hm_matches this ! nat i)]\<rparr>))"

definition setCurrentMatch :: "int \<Rightarrow> 'a hm_state \<Rightarrow> outcome \<times> 'a hm_state" where
  "setCurrentMatch i s =
     (case s of (this, pg) \<Rightarrow>
        if i < 0 \<or> i \<ge> int (length (hm_matches this))
        then (Returned, this, pg\<lparr>console_warn := console_warn pg @ [i]\<rparr>)
        else
          let this1 = this\<lparr>currentIndex := i\<rparr>;
              currentMatch = hm_matches this1 ! nat i
          in (case (if currentMatchHighlight this1 \<noteq> None
                    then highlights_delete CURRENT_MATCH_NAME pg else Some pg) of
                None \<Rightarrow> (Threw TypeError, this1, pg)
              | Some pg1 \<Rightarrow>
                  (case new_Highlight [range' currentMatch] pg1 of
                     None \<Rightarrow> (Threw ReferenceError, this1, pg1)
                   | Some h \<Rightarrow>
                       let this2 = this1\<lparr>currentMatchHighlight := Some h\<rparr>
                       in (case highlights_set CURRENT_MATCH_NAME h pg1 of
                             None \<Rightarrow> (Threw TypeError, this2, pg1)
                           | Some pg2 \<Rightarrow> scrollToMatch i (this2, pg2)))))"

definition clearHighlights :: "'a hm_state \<Rightarrow> outcome \<times> 'a hm_state" where
  "clearHighlights s =
     (case s of (this, pg) \<Rightarrow>
        if \<not> isSupported pg then (Returned, this, pg)
        else
          (case highlights_delete ALL_MATCHES_NAME pg of
             None \<Rightarrow> (Threw TypeError, this, pg)
           | Some pg1 \<Rightarrow>
               (case highlights_delete CURRENT_MATCH_NAME pg1 of
                  None \<Rightarrow> (Threw TypeError, this, pg1)
                | Some pg2 \<Rightarrow>
                    (Returned,
                     this\<lparr>allMatchesHighlight := None, currentMatchHighlight := None,
                          hm_matches := [], currentIndex := - 1\<rparr>,
                     pg2))))"

definition highlightMatches :: "MatchData list \<Rightarrow> 'a hm_state \<Rightarrow> outcome \<times> 'a hm_state" where
  "highlightMatches ms s =
     (case s of (this, pg) \<Rightarrow>
        (case clearHighlights (this\<lparr>hm_matches := ms\<rparr>, pg) of
           (Threw e, s1) \<Rightarrow> (Threw e, s1)
         | (Returned, this1, pg1) \<Rightarrow>
             if length ms = 0 \<or> \<not> isSupported pg1 then (Returned, this1, pg1)
             else
               (case new_Highlight (map range' ms) pg1 of
                  None \<Rightarrow> (Threw ReferenceError, this1, pg1)
                | Some h \<Rightarrow>
                    let this2 = this1\<lparr>allMatchesHighlight := Some h\<rparr>
                    in (case highlights_set ALL_MATCHES_NAME h pg1 of
                          None \<Rightarrow> (Threw TypeError, this2, pg1)
                        | Some pg2 \<Rightarrow>
                            if length ms > 0 then setCurrentMatch 0 (this2, pg2)
                            else (Returned, this2, pg2)))))"

definition getCurrentIndex :: "HighlightManager \<Rightarrow> int" where
  "getCurrentIndex this = currentIndex this"

definition getTotalMatches :: "HighlightManager \<Rightarrow> nat" where
  "getTotalMatches this = length (hm_matches this)"

definition hasMatches :: "HighlightManager \<Rightarrow> bool" where
  "hasMatches this = (length (hm_matches this) > 0)"

text \<open>
  JavaScript's \<open>%\<close> takes the sign of the dividend; it is only used with a positive
  divisor here.
\<close>

definition js_rem :: "int \<Rightarrow> int \<Rightarrow> int" where
  "js_rem a b = (if a < 0 then - ((- a) mod b) else a mod b)"

definition nextMatch :: "'a hm_state \<Rightarrow> outcome \<times> 'a hm_state" where
  "nextMatch s =
     (case s of (this, pg) \<Rightarrow>
        if length (hm_matches this) = 0 then (Returned, this, pg)
        else
          let nextIndex = js_rem (currentIndex this + 1) (int (length (hm_matches this)))
          in setCurrentMatch nextIndex (this, pg))"

definition previousMatch :: "'a hm_state \<Rightarrow> outcome \<times> 'a hm_state" where
  "previousMatch s =
     (case s of (this, pg) \<Rightarrow>
        if length (hm_matches this) = 0 then (Returned, this, pg)
        else
          let prevIndex = (if currentIndex this - 1 < 0 then int (length (hm_matches this)) - 1
                           else currentIndex this - 1)
          in setCurrentMatch prevIndex (this, pg))"

text \<open>The state a call leaves behind, whether it returned or threw.\<close>

definition after :: "('s \<Rightarrow> outcome \<times> 's) \<Rightarrow> 's \<Rightarrow> 's" where
  "after call s = snd (call s)"

text \<open>A caller that makes the same call \<open>n\<close> times in a row and is stopped by the
  first call that throws.\<close>

fun repeat_call :: "nat \<Rightarrow> ('s \<Rightarrow> outcome \<times> 's) \<Rightarrow> 's \<Rightarrow> outcome \<times> 's" where
  "repeat_call 0 call s = (Returned, s)"
| "repeat_call (Suc n) call s =
     (case call s of
        (Returned, s') \<Rightarrow> repeat_call n call s'
      | (Threw e, s') \<Rightarrow> (Threw e, s'))"


section \<open>SearchEngine\<close>

subsection \<open>The host's regular expressions\<close>

text \<open>
  A compiled \<open>RegExp\<close> with the \<open>g\<close> flag is its matcher and its mutable
  \<open>lastIndex\<close>. The matcher takes the text and a start position and gives the
  length of the match that starts there, if there is one. \<open>exec\<close> is the built-in
  \<open>RegExp.prototype.exec\<close>: it tries the start positions from \<open>lastIndex\<close> up to
  the end of the text; on success it returns the start and the matched substring and
  moves \<open>lastIndex\<close> to the end of the match, on failure it returns \<open>null\<close> and
  resets \<open>lastIndex\<close> to 0.
\<close>

record RegExp =
  match_at :: "string \<Rightarrow> nat \<Rightarrow> nat option"
  lastIndex :: nat

record RegExpExecArray =
  exec_index :: nat
  exec_0 :: string

function first_match ::
  "(string \<Rightarrow> nat \<Rightarrow> nat option) \<Rightarrow> string \<Rightarrow> nat \<Rightarrow> (nat \<times> nat) option" where
  "first_match m s i =
     (if length s < i then None
      else (case m s i of
              Some n \<Rightarrow> Some (i, n)
            | None \<Rightarrow> first_match m s (Suc i)))"
  by pat_completeness auto
termination
  by (relation "measure (\<lambda>(m, s, i). Suc (length s) - i)") auto

declare first_match.simps [simp del]

definition exec :: "RegExp \<Rightarrow> string \<Rightarrow> RegExpExecArray option \<times> RegExp" where
  "exec p s =
     (case first_match (match_at p) s (lastIndex p) of
        None \<Rightarrow> (None, p\<lparr>lastIndex := 0\<rparr>)
      | Some (i, n) \<Rightarrow>
          (Some \<lparr>exec_index = i, exec_0 = take n (drop i s)\<rparr>,
           p\<lparr>lastIndex := i + length (take n (drop i s))\<rparr>))"

text \<open>\<open>new RegExp(source, flags)\<close> either throws a \<open>SyntaxError\<close> (\<open>Inl\<close> of its
  message) or returns the compiled expression. \<open>performance.now()\<close> is read twice in
  a search; the host supplies the two readings.\<close>

record host =
  new_RegExp :: "string \<Rightarrow> string \<Rightarrow> string + RegExp"
  now_at_start :: real
  now_at_end :: real

subsection \<open>The document\<close>

text \<open>
  An element carries its tag name, the computed style \<open>getComputedStyle\<close> reports for
  it, and its children in document order.
\<close>

record computed_style =
  display :: string
  visibility :: string
  opacity :: string

datatype dom_node =
    Text text_node
  | Element string computed_style "dom_node list"

definition is_white_space :: "char \<Rightarrow> bool" where
  "is_white_space c =
     (c = CHR 0x09 \<or> c = CHR 0x0A \<or> c = CHR 0x0B \<or> c = CHR 0x0C \<or> c = CHR 0x0D \<or>
      c = CHR 0x20 \<or> c = CHR 0xA0)"

definition trim :: "string \<Rightarrow> string" where
  "trim s = rev (dropWhile is_white_space (rev (dropWhile is_white_space s)))"

text \<open>
  Case mapping of a code unit below 256: the ASCII letters and the Latin-1 letters
  (\<open>0xC0\<close> to \<open>0xDE\<close> and \<open>0xE0\<close> to \<open>0xFE\<close>, without the signs \<open>0xD7\<close>
  and \<open>0xF7\<close>). The three characters whose upper-case form is not a code unit below
  256 (\<open>0xB5\<close>, \<open>0xDF\<close>, \<open>0xFF\<close>) stay as they are: within this alphabet no
  other character shares their form.
\<close>

definition to_lower :: "char \<Rightarrow> char" where
  "to_lower c =
     (let n = (of_char c :: nat)
      in if (65 \<le> n \<and> n \<le> 90) \<or> (192 \<le> n \<and> n \<le> 222 \<and> n \<noteq> 215)
         then char_of (n + 32) else c)"

definition to_upper :: "char \<Rightarrow> char" where
  "to_upper c =
     (let n = (of_char c :: nat)
      in if (97 \<le> n \<and> n \<le> 122) \<or> (224 \<le> n \<and> n \<le> 254 \<and> n \<noteq> 247)
         then char_of (n - 32) else c)"

definition toLowerCase :: "string \<Rightarrow> string" where
  "toLowerCase s = map to_lower s"

definition shouldIncludeNode :: "(string \<times> computed_style) option \<Rightarrow> text_node \<Rightarrow> bool" where
  "shouldIncludeNode parent nd =
     (case parent of
        None \<Rightarrow> False
      | Some (parentTag, style) \<Rightarrow>
          if trim (textContent nd) = [] then False
          else if display style = ''none'' \<or> visibility style = ''hidden'' \<or>
                  opacity style = ''0'' then False
          else
            let tagName = toLowerCase parentTag
            in if tagName \<in> set [''script'', ''style'', ''noscript'', ''iframe'', ''object'',
                                  ''embed'', ''svg''] then False
               else if tagName \<in> set [''input'', ''textarea'', ''select''] then False
               else True)"

text \<open>
  The tree walker with \<open>SHOW_TEXT\<close>: the text nodes below the root in document
  order, each offered to \<open>shouldIncludeNode\<close> with its parent element. The generator
  is consumed by a loop that only reads it, so the list of what it would yield stands
  for it.
\<close>

fun text_nodes_under :: "string \<times> computed_style \<Rightarrow> dom_node \<Rightarrow> text_node list" where
  "text_nodes_under parent (Text nd) =
     (if shouldIncludeNode (Some parent) nd then [nd] else [])"
| "text_nodes_under parent (Element tagName style children) =
     concat (map (text_nodes_under (tagName, style)) children)"

definition getTextNodesGenerator :: "dom_node \<Rightarrow> text_node list" where
  "getTextNodesGenerator rootElement =
     (case rootElement of
        Text nd \<Rightarrow> []
      | Element tagName style children \<Rightarrow>
          concat (map (text_nodes_under (tagName, style)) children))"

subsection \<open>Matching\<close>

definition MAX_MATCHES :: nat where
  "MAX_MATCHES = 10000"

definition backslash :: char where
  "backslash = CHR 0x5C"

text \<open>The characters of the class \<open>[.*+?^${}()|[\]\\]\<close>.\<close>

definition special_characters :: string where
  "special_characters = ''.*+?^${}()|[]'' @ [backslash]"

text \<open>\<open>text.replace(/[.*+?^${}()|[\]\\]/g, '\\$&')\<close>: every special character gets a
  backslash in front.\<close>

definition escapeRegex :: "string \<Rightarrow> string" where
  "escapeRegex s =
     concat (map (\<lambda>c. if c \<in> set special_characters then [backslash, c] else [c]) s)"

definition buildPattern :: "host \<Rightarrow> string \<Rightarrow> SearchOptions \<Rightarrow> RegExp option" where
  "buildPattern h searchText options =
     (let pattern = (if \<not> isRegex options then escapeRegex searchText else searchText);
          pattern = (if wholeWord options
                     then [backslash, CHR ''b''] @ pattern @ [backslash, CHR ''b'']
                     else pattern);
          flags = (if caseSensitive options then ''g'' else ''gi'')
      in (case new_RegExp h pattern flags of
            Inl e \<Rightarrow> None
          | Inr r \<Rightarrow> Some r))"

definition createMatchData :: "text_node \<Rightarrow> RegExpExecArray \<Rightarrow> nat \<Rightarrow> MatchData" where
  "createMatchData textNode match i =
     \<lparr>text' = exec_0 match,
      range' = \<lparr>startContainer = node_id textNode, range_start = exec_index match,
                range_end = exec_index match + length (exec_0 match)\<rparr>,
      index = i,
      node = textNode,
      startOffset = exec_index match,
      endOffset = exec_index match + length (exec_0 match)\<rparr>"

lemma first_match_bounds:
  "first_match m s i = Some (j, n) \<Longrightarrow> i \<le> j \<and> j \<le> length s"
proof (induction m s i rule: first_match.induct)
  case (1 m s i)
  show ?case
  proof (cases "m s i")
    case None
    with "1.prems" have "first_match m s (Suc i) = Some (j, n)" "\<not> length s < i"
      by (auto simp: first_match.simps [of m s i] split: if_splits)
    with "1.IH" None show ?thesis by auto
  next
    case (Some n')
    with "1.prems" show ?thesis
      by (auto simp: first_match.simps [of m s i] split: if_splits)
  qed
qed

lemma exec_bounds:
  assumes "exec p s = (Some match, p')"
  shows "lastIndex p \<le> exec_index match" and "exec_index match \<le> length s"
    and "lastIndex p' = exec_index match + length (exec_0 match)"
    and "exec_index match + length (exec_0 match) \<le> length s"
    and "match_at p' = match_at p"
  using assms first_match_bounds [of "match_at p" s "lastIndex p"]
  by (auto simp: exec_def split: option.splits)

text \<open>
  The loop of \<open>findMatchesInNode\<close>: each round calls \<open>exec\<close>, records the match with
  the next global index and, for a zero-width match, moves \<open>lastIndex\<close> on by one.
\<close>

function findMatches_loop ::
  "text_node \<Rightarrow> string \<Rightarrow> nat \<Rightarrow> RegExp \<Rightarrow> MatchData list \<Rightarrow> MatchData list" where
  "findMatches_loop textNode s startIndex pattern ms =
     (case exec pattern s of
        (None, pattern1) \<Rightarrow> ms
      | (Some match, pattern1) \<Rightarrow>
          findMatches_loop textNode s startIndex
            (if exec_index match = lastIndex pattern1
             then pattern1\<lparr>lastIndex := lastIndex pattern1 + 1\<rparr> else pattern1)
            (ms @ [createMatchData textNode match (startIndex + length ms)]))"
  by pat_completeness auto
termination
proof (relation "measure (\<lambda>(textNode, s, startIndex, pattern, ms). Suc (length s) - lastIndex pattern)")
  show "wf (measure (\<lambda>(textNode, s, startIndex, pattern, ms). Suc (length s) - lastIndex pattern))"
    by simp
next
  fix textNode :: text_node and s :: string and startIndex :: nat and pattern :: RegExp
    and ms :: "MatchData list" and x and pattern1 and match
  assume "(x, pattern1) = exec pattern s" "x = Some match"
  then have e: "exec pattern s = (Some match, pattern1)" by simp
  have a: "lastIndex pattern \<le> exec_index match" and b: "exec_index match \<le> length s"
    using exec_bounds(1,2) [OF e] by blast+
  have c: "exec_index match \<le> lastIndex pattern1"
    using exec_bounds(3) [OF e] by linarith
  show "((textNode, s, startIndex,
          if exec_index match = lastIndex pattern1
          then pattern1\<lparr>lastIndex := lastIndex pattern1 + 1\<rparr> else pattern1,
          ms @ [createMatchData textNode match (startIndex + length ms)]),
         textNode, s, startIndex, pattern, ms)
        \<in> measure (\<lambda>(textNode, s, startIndex, pattern, ms). Suc (length s) - lastIndex pattern)"
  proof (cases "exec_index match = lastIndex pattern1")
    case True
    have "Suc (length s) - (lastIndex pattern1 + 1) < Suc (length s) - lastIndex pattern"
      using a b True by linarith
    with True show ?thesis by simp
  next
    case False
    have "Suc (length s) - lastIndex pattern1 < Suc (length s) - lastIndex pattern"
      using a b c False by linarith
    with False show ?thesis by simp
  qed
qed

declare findMatches_loop.simps [simp del]

definition findMatchesInNode :: "text_node \<Rightarrow> RegExp \<Rightarrow> nat \<Rightarrow> MatchData list" where
  "findMatchesInNode textNode pattern startIndex =
     findMatches_loop textNode (textContent textNode) startIndex (pattern\<lparr>lastIndex := 0\<rparr>) []"

text \<open>The loop of \<open>search\<close> over the text nodes, with its \<open>break\<close>.\<close>

fun search_nodes :: "RegExp \<Rightarrow> text_node list \<Rightarrow> MatchData list \<Rightarrow> MatchData list" where
  "search_nodes pattern [] ms = ms"
| "search_nodes pattern (textNode # rest) ms =
     (if length ms \<ge> MAX_MATCHES then ms
      else search_nodes pattern rest (ms @ findMatchesInNode textNode pattern (length ms)))"

definition empty_result :: SearchResult where
  "empty_result = \<lparr>matches = [], totalCount = 0, searchTime = 0\<rparr>"

definition search :: "host \<Rightarrow> string \<Rightarrow> SearchOptions \<Rightarrow> dom_node \<Rightarrow> SearchResult" where
  "search h searchText options rootElement =
     (let startTime = now_at_start h
      in if searchText = [] then empty_result
         else (case buildPattern h searchText options of
                 None \<Rightarrow> empty_result
               | Some pattern \<Rightarrow>
                   let ms = search_nodes pattern (getTextNodesGenerator rootElement) [];
                       searchTime = now_at_end h - startTime
                   in \<lparr>matches = ms, totalCount = length ms, searchTime = searchTime\<rparr>))"


subsection \<open>validatePattern\<close>

text \<open>
  The regular expressions the code itself writes as literals are given by their
  syntax trees, matched by the backtracking matcher of the language: \<open>ends\<close> lists
  the positions where a match that starts at \<open>i\<close> can end, in the order in which
  backtracking tries them, so the head is the match \<open>exec\<close> reports. A repetition
  never takes an empty round. With the \<open>i\<close> flag, characters are compared by their
  upper-case forms.
\<close>

datatype regex =
    Chr char
  | AnyChar
  | Cls bool "(char \<times> char) list"
  | WordB
  | Bol
  | Eol
  | Eps
  | Seq regex regex
  | Alt regex regex
  | Star regex

definition Plus :: "regex \<Rightarrow> regex" where
  "Plus r = Seq r (Star r)"

definition Opt :: "regex \<Rightarrow> regex" where
  "Opt r = Alt r Eps"

definition in_ranges :: "(char \<times> char) list \<Rightarrow> char \<Rightarrow> bool" where
  "in_ranges rs c =
     list_ex (\<lambda>(lo, hi). (of_char lo :: nat) \<le> of_char c \<and> (of_char c :: nat) \<le> of_char hi) rs"

definition class_matches :: "bool \<Rightarrow> bool \<Rightarrow> (char \<times> char) list \<Rightarrow> char \<Rightarrow> bool" where
  "class_matches ic neg rs c =
     ((if ic then in_ranges rs c \<or> in_ranges rs (to_upper c) \<or> in_ranges rs (to_lower c)
       else in_ranges rs c) \<noteq> neg)"

definition char_matches :: "bool \<Rightarrow> char \<Rightarrow> char \<Rightarrow> bool" where
  "char_matches ic c d = (if ic then to_upper c = to_upper d else c = d)"

definition word_ranges :: "(char \<times> char) list" where
  "word_ranges =
     [(CHR ''a'', CHR ''z''), (CHR ''A'', CHR ''Z''), (CHR ''0'', CHR ''9''),
      (CHR ''_'', CHR ''_'')]"

definition is_word_char :: "char \<Rightarrow> bool" where
  "is_word_char c = in_ranges word_ranges c"

definition is_line_terminator :: "char \<Rightarrow> bool" where
  "is_line_terminator c = (c = CHR 0x0A \<or> c = CHR 0x0D)"

definition word_at :: "string \<Rightarrow> nat \<Rightarrow> bool" where
  "word_at s i = (i < length s \<and> is_word_char (s ! i))"

definition word_boundary :: "string \<Rightarrow> nat \<Rightarrow> bool" where
  "word_boundary s i = ((0 < i \<and> word_at s (i - 1)) \<noteq> word_at s i)"

function ends :: "bool \<Rightarrow> regex \<Rightarrow> string \<Rightarrow> nat \<Rightarrow> nat list" where
  "ends ic (Chr c) s i = (if i < length s \<and> char_matches ic c (s ! i) then [Suc i] else [])"
| "ends ic AnyChar s i = (if i < length s \<and> \<not> is_line_terminator (s ! i) then [Suc i] else [])"
| "ends ic (Cls neg rs) s i =
     (if i < length s \<and> class_matches ic neg rs (s ! i) then [Suc i] else [])"
| "ends ic WordB s i = (if word_boundary s i then [i] else [])"
| "ends ic Bol s i = (if i = 0 then [i] else [])"
| "ends ic Eol s i = (if i = length s then [i] else [])"
| "ends ic Eps s i = [i]"
| "ends ic (Seq a b) s i = concat (map (\<lambda>e. ends ic b s e) (ends ic a s i))"
| "ends ic (Alt a b) s i = ends ic a s i @ ends ic b s i"
| "ends ic (Star a) s i =
     concat (map (\<lambda>e. if i < e \<and> e \<le> length s then ends ic (Star a) s e else [])
               (ends ic a s i)) @ [i]"
  by pat_completeness auto
termination
  by (relation "inv_image (less_than <*lex*> less_than)
        (\<lambda>(ic, r, s, i). (size r, length s - i))") auto

definition RegExp_of :: "bool \<Rightarrow> regex \<Rightarrow> RegExp" where
  "RegExp_of ic r =
     \<lparr>match_at = (\<lambda>s i. case ends ic r s i of [] \<Rightarrow> None | e # es \<Rightarrow> Some (e - i)),
      lastIndex = 0\<rparr>"

text \<open>\<open>RegExp.prototype.test\<close> of an expression without the \<open>g\<close> flag: is there a
  match anywhere in the text.\<close>

definition test :: "RegExp \<Rightarrow> string \<Rightarrow> bool" where
  "test p s = (first_match (match_at p) s 0 \<noteq> None)"

text \<open>
  \<open>/(\w+)+\+/\<close>, \<open>/(a+)+\+/\<close>, \<open>/(a\*)\*\+/\<close> and \<open>/(\(.+\))+\+/\<close>.
\<close>

definition dangerousPatterns :: "regex list" where
  "dangerousPatterns =
     [Seq (Plus (Plus (Cls False word_ranges))) (Chr (CHR ''+'')),
      Seq (Plus (Plus (Chr (CHR ''a'')))) (Chr (CHR ''+'')),
      Seq (Seq (Chr (CHR ''a'')) (Chr (CHR ''*''))) (Seq (Chr (CHR ''*'')) (Chr (CHR ''+''))),
      Seq (Plus (Seq (Chr (CHR ''('')) (Seq (Plus AnyChar) (Chr (CHR '')''))))) (Chr (CHR ''+''))]"

record validation =
  isValid :: bool
  error :: "string option"

definition validatePattern :: "host \<Rightarrow> string \<Rightarrow> validation" where
  "validatePattern h pattern =
     (if length pattern > 1000
      then \<lparr>isValid = False, error = Some ''Pattern too long (max 1000 characters)''\<rparr>
      else (case new_RegExp h pattern [] of
              Inl message \<Rightarrow> \<lparr>isValid = False, error = Some message\<rparr>
            | Inr compiled \<Rightarrow>
                if list_ex (\<lambda>dangerous. test (RegExp_of False dangerous) pattern)
                     dangerousPatterns
                then \<lparr>isValid = False,
                      error = Some ''Pattern contains potentially dangerous nested quantifiers''\<rparr>
                else \<lparr>isValid = True, error = None\<rparr>))"

subsection \<open>A host for a fragment of the pattern language\<close>

text \<open>
  For the concrete searches below, \<open>new RegExp\<close> is given for the patterns built from
  literal characters, \<open>\\\<close> followed by a syntax character, \<open>\b\<close>, \<open>\w\<close>, \<open>.\<close>,
  \<open>^\<close>, \<open>$\<close>, character classes of characters and ranges, groups, \<open>|\<close> and the
  greedy quantifiers \<open>*\<close>, \<open>+\<close>, \<open>?\<close>. The general theorems hold for every host; a
  pattern outside the fragment is \<open>Unmodelled\<close> here.
\<close>

datatype token =
    TChar char
  | TAny
  | TClass bool "(char \<times> char) list"
  | TWordB
  | TBol
  | TEol
  | TOpen
  | TClose
  | TBar
  | TStar
  | TPlus
  | TOpt

datatype 'a parsed = Parsed 'a | Rejected string | Unmodelled

fun cons_token :: "token \<Rightarrow> token list parsed \<Rightarrow> token list parsed" where
  "cons_token t (Parsed ts) = Parsed (t # ts)"
| "cons_token t (Rejected m) = Rejected m"
| "cons_token t Unmodelled = Unmodelled"

definition syntax_characters :: string where
  "syntax_characters = ''^$.*+?()[]{}|'' @ [backslash]"

definition escape_token :: "char \<Rightarrow> token option" where
  "escape_token d =
     (if d \<in> set syntax_characters then Some (TChar d)
      else if d = CHR ''b'' then Some TWordB
      else if d = CHR ''w'' then Some (TClass False word_ranges)
      else None)"

definition plain_token :: "char \<Rightarrow> token option" where
  "plain_token c =
     (if c = CHR ''.'' then Some TAny
      else if c = CHR ''^'' then Some TBol
      else if c = CHR ''$'' then Some TEol
      else if c = CHR ''('' then Some TOpen
      else if c = CHR '')'' then Some TClose
      else if c = CHR ''|'' then Some TBar
      else if c = CHR ''*'' then Some TStar
      else if c = CHR ''+'' then Some TPlus
      else if c = CHR ''?'' then Some TOpt
      else if c = CHR ''{'' \<or> c = CHR ''}'' \<or> c = CHR '']'' then None
      else Some (TChar c))"

text \<open>The first argument is \<open>None\<close> outside a character class, and inside one the
  class read so far.\<close>

fun lexer :: "(bool \<times> (char \<times> char) list) option \<Rightarrow> string \<Rightarrow> token list parsed" where
  "lexer None [] = Parsed []"
| "lexer (Some cls) [] = Rejected ''Unterminated character class''"
| "lexer None (c # cs) =
     (if c = backslash then
        (case cs of
           [] \<Rightarrow> Rejected (backslash # '' at end of pattern'')
         | d # ds \<Rightarrow>
             (case escape_token d of
                None \<Rightarrow> Unmodelled
              | Some t \<Rightarrow> cons_token t (lexer None ds)))
      else if c = CHR ''['' then
        (case cs of
           [] \<Rightarrow> lexer (Some (False, [])) cs
         | d # ds \<Rightarrow>
             if d = CHR ''^'' then lexer (Some (True, [])) ds
             else lexer (Some (False, [])) cs)
      else if c = CHR ''('' \<and> take 1 cs = ''?'' then Unmodelled
      else (case plain_token c of
              None \<Rightarrow> Unmodelled
            | Some t \<Rightarrow> cons_token t (lexer None cs)))"
| "lexer (Some (neg, rs)) (c # cs) =
     (if c = CHR '']'' then cons_token (TClass neg rs) (lexer None cs)
      else if c = backslash then Unmodelled
      else
        (case cs of
           d # e # es \<Rightarrow>
             if d = CHR ''-'' \<and> e \<noteq> CHR '']'' then
               (if e = backslash then Unmodelled
                else if (of_char e :: nat) < of_char c
                then Rejected ''Range out of order in character class''
                else lexer (Some (neg, rs @ [(c, e)])) es)
             else lexer (Some (neg, rs @ [(c, c)])) cs
         | _ \<Rightarrow> lexer (Some (neg, rs @ [(c, c)])) cs))"

datatype term_kind = NoTerm | Atom | Assertion | Quantified

text \<open>A group being read: its finished alternatives, the terms of the alternative
  being read, and what the last term was.\<close>

record frame =
  alternatives :: "regex list"
  terms :: "regex list"
  previous :: term_kind

definition empty_frame :: frame where
  "empty_frame = \<lparr>alternatives = [], terms = [], previous = NoTerm\<rparr>"

fun seq_of :: "regex list \<Rightarrow> regex" where
  "seq_of [] = Eps"
| "seq_of (r # rs) = Seq r (seq_of rs)"

fun alt_of :: "regex list \<Rightarrow> regex \<Rightarrow> regex" where
  "alt_of [] r = r"
| "alt_of (a # as) r = Alt a (alt_of as r)"

definition close_frame :: "frame \<Rightarrow> regex" where
  "close_frame f = alt_of (alternatives f) (seq_of (terms f))"

definition push_term :: "term_kind \<Rightarrow> regex \<Rightarrow> frame \<Rightarrow> frame" where
  "push_term k r f = f\<lparr>terms := terms f @ [r], previous := k\<rparr>"

definition quantify :: "(regex \<Rightarrow> regex) \<Rightarrow> frame \<Rightarrow> frame" where
  "quantify q f = f\<lparr>terms := butlast (terms f) @ [q (last (terms f))], previous := Quantified\<rparr>"

fun parse_tokens :: "frame \<Rightarrow> frame list \<Rightarrow> token list \<Rightarrow> regex parsed" where
  "parse_tokens f stack [] =
     (if stack = [] then Parsed (close_frame f) else Rejected ''Unterminated group'')"
| "parse_tokens f stack (TChar c # ts) = parse_tokens (push_term Atom (Chr c) f) stack ts"
| "parse_tokens f stack (TAny # ts) = parse_tokens (push_term Atom AnyChar f) stack ts"
| "parse_tokens f stack (TClass neg rs # ts) =
     parse_tokens (push_term Atom (Cls neg rs) f) stack ts"
| "parse_tokens f stack (TWordB # ts) = parse_tokens (push_term Assertion WordB f) stack ts"
| "parse_tokens f stack (TBol # ts) = parse_tokens (push_term Assertion Bol f) stack ts"
| "parse_tokens f stack (TEol # ts) = parse_tokens (push_term Assertion Eol f) stack ts"
| "parse_tokens f stack (TOpen # ts) = parse_tokens empty_frame (f # stack) ts"
| "parse_tokens f stack (TClose # ts) =
     (case stack of
        [] \<Rightarrow> Rejected ''Unmatched ) ''
      | outer # stack' \<Rightarrow> parse_tokens (push_term Atom (close_frame f) outer) stack' ts)"
| "parse_tokens f stack (TBar # ts) =
     parse_tokens \<lparr>alternatives = alternatives f @ [seq_of (terms f)], terms = [],
                   previous = NoTerm\<rparr> stack ts"
| "parse_tokens f stack (TStar # ts) =
     (if previous f = Atom then parse_tokens (quantify Star f) stack ts
      else Rejected ''Nothing to repeat'')"
| "parse_tokens f stack (TPlus # ts) =
     (if previous f = Atom then parse_tokens (quantify Plus f) stack ts
      else Rejected ''Nothing to repeat'')"
| "parse_tokens f stack (TOpt # ts) =
     (if previous f = Atom then parse_tokens (quantify Opt f) stack ts
      else if previous f = Quantified then Unmodelled
      else Rejected ''Nothing to repeat'')"

definition parse_pattern :: "string \<Rightarrow> regex parsed" where
  "parse_pattern pattern =
     (case lexer None pattern of
        Parsed ts \<Rightarrow> parse_tokens empty_frame [] ts
      | Rejected m \<Rightarrow> Rejected m
      | Unmodelled \<Rightarrow> Unmodelled)"

definition fragment_RegExp :: "string \<Rightarrow> string \<Rightarrow> string + RegExp" where
  "fragment_RegExp pattern flags =
     (case parse_pattern pattern of
        Parsed r \<Rightarrow> Inr (RegExp_of (CHR ''i'' \<in> set flags) r)
      | Rejected m \<Rightarrow> Inl (''Invalid regular expression: /'' @ pattern @ ''/: '' @ m)
      | Unmodelled \<Rightarrow> Inl ''Pattern outside the modelled fragment'')"

definition fragment_host :: host where
  "fragment_host = \<lparr>new_RegExp = fragment_RegExp, now_at_start = 0, now_at_end = 1\<rparr>"


section \<open>SearchController\<close>

text \<open>
  The browser as the controller sees it: the page, the document body, the pending
  timeouts of \<open>setTimeout\<close> (each with the query and options its closure captured),
  the calls made to the registered callbacks and the promises resolved, oldest first.
  A registered callback is known by a handle.
\<close>

record timeout =
  timer_id :: nat
  delay :: int
  task_query :: string
  task_options :: SearchOptions

datatype callback_call =
    SearchComplete nat SearchResult
  | MatchChange nat int nat

record browser = page +
  document_body :: dom_node
  timers :: "timeout list"
  next_timer_id :: nat
  callback_calls :: "callback_call list"
  resolved :: "(nat \<times> SearchResult) list"

record SearchController =
  highlightManager :: HighlightManager
  currentQuery :: string
  currentOptions :: SearchOptions
  searchResult :: "SearchResult option"
  searchDebounceTimer :: "nat option"
  onSearchCompleteCallback :: "nat option"
  onMatchChangeCallback :: "nat option"

definition new_SearchController :: SearchController where
  "new_SearchController =
     \<lparr>highlightManager = new_HighlightManager,
      currentQuery = [],
      currentOptions = \<lparr>isRegex = False, caseSensitive = False, wholeWord = False\<rparr>,
      searchResult = None,
      searchDebounceTimer = None,
      onSearchCompleteCallback = None,
      onMatchChangeCallback = None\<rparr>"

type_synonym sc_state = "SearchController \<times> browser"

definition clearTimeout :: "nat \<Rightarrow> browser \<Rightarrow> browser" where
  "clearTimeout t br = br\<lparr>timers := filter (\<lambda>x. timer_id x \<noteq> t) (timers br)\<rparr>"

definition setTimeout :: "string \<Rightarrow> SearchOptions \<Rightarrow> int \<Rightarrow> browser \<Rightarrow> nat \<times> browser" where
  "setTimeout query options debounceMs br =
     (next_timer_id br,
      br\<lparr>timers := timers br @
             [\<lparr>timer_id = next_timer_id br, delay = debounceMs, task_query = query,
               task_options = options\<rparr>],
         next_timer_id := next_timer_id br + 1\<rparr>)"

definition clear :: "sc_state \<Rightarrow> outcome \<times> sc_state" where
  "clear s =
     (case s of (this, br) \<Rightarrow>
        (case clearHighlights (highlightManager this, br) of
           (Threw e, hm1, br1) \<Rightarrow> (Threw e, this\<lparr>highlightManager := hm1\<rparr>, br1)
         | (Returned, hm1, br1) \<Rightarrow>
             let this1 = this\<lparr>highlightManager := hm1, searchResult := None,
                              currentQuery := []\<rparr>
             in (case searchDebounceTimer this1 of
                   None \<Rightarrow> (Returned, this1, br1)
                 | Some t \<Rightarrow>
                     (Returned, this1\<lparr>searchDebounceTimer := None\<rparr>, clearTimeout t br1))))"

definition performSearch ::
  "host \<Rightarrow> string \<Rightarrow> SearchOptions \<Rightarrow> sc_state \<Rightarrow> (outcome \<times> SearchResult option) \<times> sc_state" where
  "performSearch h query options s =
     (case clear s of
        (Threw e, s1) \<Rightarrow> ((Threw e, None), s1)
      | (Returned, this1, br1) \<Rightarrow>
          let this2 = this1\<lparr>currentQuery := query, currentOptions := options\<rparr>;
              result = search h query options (document_body br1);
              this3 = this2\<lparr>searchResult := Some result\<rparr>
          in (case (if length (matches result) > 0
                    then highlightMatches (matches result) (highlightManager this3, br1)
                    else (Returned, highlightManager this3, br1)) of
                (Threw e, hm, br2) \<Rightarrow> ((Threw e, None), this3\<lparr>highlightManager := hm\<rparr>, br2)
              | (Returned, hm, br2) \<Rightarrow>
                  let this4 = this3\<lparr>highlightManager := hm\<rparr>;
                      br3 = (case onSearchCompleteCallback this4 of
                               None \<Rightarrow> br2
                             | Some cb \<Rightarrow>
                                 br2\<lparr>callback_calls :=
                                       callback_calls br2 @ [SearchComplete cb result]\<rparr>);
                      br4 = (case onMatchChangeCallback this4 of
                               None \<Rightarrow> br3
                             | Some cb \<Rightarrow>
                                 if length (matches result) > 0
                                 then br3\<lparr>callback_calls :=
                                        callback_calls br3 @
                                          [MatchChange cb 0 (totalCount result)]\<rparr>
                                 else br3)
                  in ((Returned, Some result), this4, br4)))"

text \<open>
  \<open>search\<close> of the controller (\<open>sc_search\<close> here, as \<open>search\<close> is the engine's)
  returns a promise: already resolved for a blank query, otherwise pending on the
  timeout it has just set.
\<close>

datatype promise = Resolved SearchResult | Pending nat

definition sc_search ::
  "string \<Rightarrow> SearchOptions \<Rightarrow> int \<Rightarrow> sc_state \<Rightarrow> (outcome \<times> promise option) \<times> sc_state" where
  "sc_search q options debounceMs s =
     (let query = trim q
      in if query = [] then
           (case clear s of
              (Threw e, s1) \<Rightarrow> ((Threw e, None), s1)
            | (Returned, s1) \<Rightarrow> ((Returned, Some (Resolved empty_result)), s1))
         else
           (case s of (this, br) \<Rightarrow>
              let br1 = (case searchDebounceTimer this of
                           None \<Rightarrow> br
                         | Some t \<Rightarrow> clearTimeout t br)
              in (case setTimeout query options debounceMs br1 of
                    (t, br2) \<Rightarrow>
                      ((Returned, Some (Pending t)),
                       this\<lparr>searchDebounceTimer := Some t\<rparr>, br2))))"

text \<open>
  The event loop runs the callback of a pending timeout: the timeout leaves the
  pending list, \<open>performSearch\<close> runs with the captured query and options, and the
  promise of that call is resolved with the result. A timeout that is not pending
  cannot run.
\<close>

definition run_timeout :: "host \<Rightarrow> nat \<Rightarrow> sc_state \<Rightarrow> (outcome \<times> sc_state) option" where
  "run_timeout h t s =
     (case s of (this, br) \<Rightarrow>
        (case find (\<lambda>x. timer_id x = t) (timers br) of
           None \<Rightarrow> None
         | Some x \<Rightarrow>
             (case performSearch h (task_query x) (task_options x)
                     (this, br\<lparr>timers := filter (\<lambda>y. timer_id y \<noteq> t) (timers br)\<rparr>) of
                ((Threw e, r), s1) \<Rightarrow> Some (Threw e, s1)
              | ((Returned, None), s1) \<Rightarrow> Some (Returned, s1)
              | ((Returned, Some result), this1, br1) \<Rightarrow>
                  Some (Returned, this1, br1\<lparr>resolved := resolved br1 @ [(t, result)]\<rparr>))))"

definition navigateNext :: "sc_state \<Rightarrow> outcome \<times> sc_state" where
  "navigateNext s =
     (case s of (this, br) \<Rightarrow>
        if \<not> hasMatches (highlightManager this) then (Returned, this, br)
        else
          (case nextMatch (highlightManager this, br) of
             (Threw e, hm, br1) \<Rightarrow> (Threw e, this\<lparr>highlightManager := hm\<rparr>, br1)
           | (Returned, hm, br1) \<Rightarrow>
               (case onMatchChangeCallback this of
                  None \<Rightarrow> (Returned, this\<lparr>highlightManager := hm\<rparr>, br1)
                | Some cb \<Rightarrow>
                    (Returned, this\<lparr>highlightManager := hm\<rparr>,
                     br1\<lparr>callback_calls := callback_calls br1 @
                           [MatchChange cb (getCurrentIndex hm) (getTotalMatches hm)]\<rparr>))))"

definition navigatePrevious :: "sc_state \<Rightarrow> outcome \<times> sc_state" where
  "navigatePrevious s =
     (case s of (this, br) \<Rightarrow>
        if \<not> hasMatches (highlightManager this) then (Returned, this, br)
        else
          (case previousMatch (highlightManager this, br) of
             (Threw e, hm, br1) \<Rightarrow> (Threw e, this\<lparr>highlightManager := hm\<rparr>, br1)
           | (Returned, hm, br1) \<Rightarrow>
               (case onMatchChangeCallback this of
                  None \<Rightarrow> (Returned, this\<lparr>highlightManager := hm\<rparr>, br1)
                | Some cb \<Rightarrow>
                    (Returned, this\<lparr>highlightManager := hm\<rparr>,
                     br1\<lparr>callback_calls := callback_calls br1 @
                           [MatchChange cb (getCurrentIndex hm) (getTotalMatches hm)]\<rparr>))))"

definition navigateToMatch :: "int \<Rightarrow> sc_state \<Rightarrow> outcome \<times> sc_state" where
  "navigateToMatch i s =
     (case s of (this, br) \<Rightarrow>
        if \<not> hasMatches (highlightManager this) then (Returned, this, br)
        else
          (case setCurrentMatch i (highlightManager this, br) of
             (Threw e, hm, br1) \<Rightarrow> (Threw e, this\<lparr>highlightManager := hm\<rparr>, br1)
           | (Returned, hm, br1) \<Rightarrow>
               (case onMatchChangeCallback this of
                  None \<Rightarrow> (Returned, this\<lparr>highlightManager := hm\<rparr>, br1)
                | Some cb \<Rightarrow>
                    (Returned, this\<lparr>highlightManager := hm\<rparr>,
                     br1\<lparr>callback_calls := callback_calls br1 @
                           [MatchChange cb (getCurrentIndex hm) (getTotalMatches hm)]\<rparr>))))"

definition onSearchComplete :: "nat \<Rightarrow> SearchController \<Rightarrow> SearchController" where
  "onSearchComplete cb this = this\<lparr>onSearchCompleteCallback := Some cb\<rparr>"

definition onMatchChange :: "nat \<Rightarrow> SearchController \<Rightarrow> SearchController" where
  "onMatchChange cb this = this\<lparr>onMatchChangeCallback := Some cb\<rparr>"


subsection \<open>Sequences of calls and what they are expected to report\<close>

text \<open>Calls of the controller's \<open>search\<close> one after the other, no timeout running in
  between.\<close>

definition search_calls :: "(string \<times> SearchOptions \<times> int) list \<Rightarrow> sc_state \<Rightarrow> sc_state" where
  "search_calls calls s =
     fold (\<lambda>c s. snd (sc_search (fst c) (fst (snd c)) (snd (snd c)) s)) calls s"

text \<open>The callback calls one run of \<open>performSearch\<close> makes for a result.\<close>

definition expected_calls :: "SearchController \<Rightarrow> SearchResult \<Rightarrow> callback_call list" where
  "expected_calls this r =
     (case onSearchCompleteCallback this of None \<Rightarrow> [] | Some cb \<Rightarrow> [SearchComplete cb r]) @
     (case onMatchChangeCallback this of
        None \<Rightarrow> []
      | Some cb \<Rightarrow> if length (matches r) > 0 then [MatchChange cb 0 (totalCount r)] else [])"

text \<open>Every pending timeout is the one the controller remembers. This holds when the
  controller is created and after each of its methods and each timeout that runs.\<close>

definition debounce_inv :: "sc_state \<Rightarrow> bool" where
  "debounce_inv s =
     list_all (\<lambda>x. searchDebounceTimer (fst s) = Some (timer_id x)) (timers (snd s))"

text \<open>The part of the browser that the highlight manager never touches.\<close>

definition same_events :: "browser \<Rightarrow> browser \<Rightarrow> bool" where
  "same_events br br' =
     (timers br' = timers br \<and> callback_calls br' = callback_calls br \<and>
      resolved br' = resolved br \<and> document_body br' = document_body br \<and>
      next_timer_id br' = next_timer_id br \<and> isSupported br' = isSupported br)"

section \<open>Concrete pages and match sets\<close>

definition page_supported :: page where
  "page_supported =
     \<lparr>CSS_highlights = Some Map.empty, console_warn = [], scroll_requests = []\<rparr>"

definition page_unsupported :: page where
  "page_unsupported = \<lparr>CSS_highlights = None, console_warn = [], scroll_requests = []\<rparr>"

text \<open>The \<open>k\<close>-th occurrence of \<open>ab\<close> in the text node \<open>ab ab ab\<close>.\<close>

definition sample_match :: "nat \<Rightarrow> MatchData" where
  "sample_match k =
     \<lparr>text' = ''ab'',
      range' = \<lparr>startContainer = 0, range_start = 3 * k, range_end = 3 * k + 2\<rparr>,
      index = k, node = \<lparr>node_id = 0, textContent = ''ab ab ab''\<rparr>,
      startOffset = 3 * k, endOffset = 3 * k + 2\<rparr>"

definition three_matches :: HighlightManager where
  "three_matches =
     \<lparr>allMatchesHighlight = None, currentMatchHighlight = None,
      hm_matches = [sample_match 0, sample_match 1, sample_match 2], currentIndex = 0\<rparr>"


definition visible :: computed_style where
  "visible = \<lparr>display = ''block'', visibility = ''visible'', opacity = ''1''\<rparr>"

text \<open>A body with one paragraph holding one text node.\<close>

definition paragraph_doc :: "string \<Rightarrow> dom_node" where
  "paragraph_doc s =
     Element ''BODY'' visible [Element ''P'' visible [Text \<lparr>node_id = 0, textContent = s\<rparr>]]"

definition options_of :: "bool \<Rightarrow> bool \<Rightarrow> bool \<Rightarrow> SearchOptions" where
  "options_of r c w = \<lparr>isRegex = r, caseSensitive = c, wholeWord = w\<rparr>"

definition spans :: "SearchResult \<Rightarrow> (string \<times> nat \<times> nat) list" where
  "spans r = map (\<lambda>m. (text' m, startOffset m, endOffset m)) (matches r)"

definition new_browser :: "bool \<Rightarrow> dom_node \<Rightarrow> browser" where
  "new_browser supported body =
     \<lparr>CSS_highlights = (if supported then Some Map.empty else None), console_warn = [],
      scroll_requests = [], document_body = body, timers = [], next_timer_id = 0,
      callback_calls = [], resolved = []\<rparr>"

definition controller_with_matches :: SearchController where
  "controller_with_matches =
     new_SearchController\<lparr>highlightManager := three_matches, onMatchChangeCallback := Some 7\<rparr>"

definition listening_controller :: SearchController where
  "listening_controller = onMatchChange 2 (onSearchComplete 1 new_SearchController)"

subsection \<open>Predicates and inputs of the engine's theorems\<close>

text \<open>What every match descriptor satisfies: its offsets lie in its node's text, its text
  is the characters between them, and its range spans them.\<close>

definition well_formed_match :: "MatchData \<Rightarrow> bool" where
  "well_formed_match m =
     (startOffset m \<le> endOffset m \<and>
      endOffset m \<le> length (textContent (node m)) \<and>
      endOffset m = startOffset m + length (text' m) \<and>
      text' m = take (endOffset m - startOffset m) (drop (startOffset m) (textContent (node m))) \<and>
      range' m = \<lparr>startContainer = node_id (node m), range_start = startOffset m,
                   range_end = endOffset m\<rparr>)"

text \<open>The query's characters stand in the text at position \<open>i\<close>, compared as the
  \<open>i\<close> flag says.\<close>

fun literal_at :: "bool \<Rightarrow> string \<Rightarrow> string \<Rightarrow> nat \<Rightarrow> bool" where
  "literal_at ic [] s i = True"
| "literal_at ic (c # q) s i =
     (i < length s \<and> char_matches ic c (s ! i) \<and> literal_at ic q s (Suc i))"

definition literal_match ::
  "bool \<Rightarrow> bool \<Rightarrow> string \<Rightarrow> string \<Rightarrow> nat \<Rightarrow> nat option" where
  "literal_match ic ww q s i =
     (if (if ww then word_boundary s i else True) \<and> literal_at ic q s i \<and>
         (if ww then word_boundary s (i + length q) else True)
      then Some (length q) else None)"

text \<open>The pattern compiled from the query \<open>a\<close> with the flags \<open>gi\<close>.\<close>

definition letter_a :: RegExp where
  "letter_a = RegExp_of True (Seq (Chr (CHR ''a'')) Eps)"

text \<open>A body whose children are \<open>n\<close> text nodes, each the single letter \<open>a\<close>.\<close>

definition one_letter_nodes :: "nat \<Rightarrow> text_node list" where
  "one_letter_nodes n = map (\<lambda>i. \<lparr>node_id = i, textContent = ''a''\<rparr>) [0..<n]"

definition one_letter_doc :: "nat \<Rightarrow> dom_node" where
  "one_letter_doc n = Element ''BODY'' visible (map Text (one_letter_nodes n))"

text \<open>A pattern of 1001 characters that does not compile.\<close>

definition long_bad_pattern :: string where
  "long_bad_pattern = CHR '')'' # replicate 1000 (CHR ''a'')"

section \<open>HighlightManager: what the methods leave behind\<close>

lemma clearHighlights_supported:
  "clearHighlights (this, pg\<lparr>CSS_highlights := Some registry\<rparr>) =
     (Returned,
      this\<lparr>allMatchesHighlight := None, currentMatchHighlight := None, hm_matches := [],
           currentIndex := - 1\<rparr>,
      pg\<lparr>CSS_highlights :=
            Some (registry(ALL_MATCHES_NAME := None, CURRENT_MATCH_NAME := None))\<rparr>)"
  by (simp add: clearHighlights_def isSupported_def highlights_delete_def)

lemma clearHighlights_unsupported:
  "CSS_highlights pg = None \<Longrightarrow> clearHighlights (this, pg) = (Returned, this, pg)"
  by (simp add: clearHighlights_def isSupported_def)

text \<open>
  With the capability present, \<open>highlightMatches\<close> stores the new sequence and then
  calls \<open>clearHighlights\<close>, which empties it again: whatever is passed in, the manager
  ends with no matches and no current match, and \<open>setCurrentMatch(0)\<close> is refused.
\<close>

lemma highlightMatches_supported:
  "fst (highlightMatches ms (this, pg\<lparr>CSS_highlights := Some registry\<rparr>)) = Returned \<and>
   hm_matches (fst (after (highlightMatches ms)
      (this, pg\<lparr>CSS_highlights := Some registry\<rparr>))) = [] \<and>
   currentIndex (fst (after (highlightMatches ms)
      (this, pg\<lparr>CSS_highlights := Some registry\<rparr>))) = - 1"
  by (simp add: after_def highlightMatches_def clearHighlights_supported isSupported_def
      highlights_set_def new_Highlight_def setCurrentMatch_def Let_def)

text \<open>Without it, the sequence is stored and nothing else changes.\<close>

lemma highlightMatches_unsupported:
  "CSS_highlights pg = None \<Longrightarrow>
   highlightMatches ms (this, pg) = (Returned, this\<lparr>hm_matches := ms\<rparr>, pg)"
  by (simp add: highlightMatches_def clearHighlights_unsupported isSupported_def)

text \<open>
  C1. The claim: after \<open>highlightMatches(ms)\<close> with \<open>ms\<close> non-empty the stored
  sequence is \<open>ms\<close>, the current index is 0, \<open>getTotalMatches()\<close> is the length of
  \<open>ms\<close> and \<open>hasMatches()\<close> is true. The code, on a fresh manager in a page that
  supports highlights and with one match: the all-matches group is registered, but the
  stored sequence is empty, the current index is -1, \<open>getTotalMatches()\<close> is 0,
  \<open>hasMatches()\<close> is false, and the only trace of \<open>setCurrentMatch(0)\<close> is its
  warning.
\<close>

theorem highlightMatches_loses_matches:
  "highlightMatches [sample_match 0] (new_HighlightManager, page_supported) =
     (Returned,
      new_HighlightManager\<lparr>allMatchesHighlight := Some [range' (sample_match 0)]\<rparr>,
      page_supported\<lparr>CSS_highlights :=
          Some [ALL_MATCHES_NAME \<mapsto> [range' (sample_match 0)]],
        console_warn := [0]\<rparr>)
   \<and> hm_matches (fst (after (highlightMatches [sample_match 0])
        (new_HighlightManager, page_supported))) = []
   \<and> getCurrentIndex (fst (after (highlightMatches [sample_match 0])
        (new_HighlightManager, page_supported))) = - 1
   \<and> getTotalMatches (fst (after (highlightMatches [sample_match 0])
        (new_HighlightManager, page_supported))) = 0
   \<and> \<not> hasMatches (fst (after (highlightMatches [sample_match 0])
        (new_HighlightManager, page_supported)))"
  by (simp add: after_def highlightMatches_def clearHighlights_def isSupported_def
      highlights_set_def new_Highlight_def setCurrentMatch_def Let_def page_supported_def
      highlights_delete_def new_HighlightManager_def getCurrentIndex_def
      getTotalMatches_def hasMatches_def)

text \<open>
  C4, as stated, fails where the capability is missing: \<open>clearHighlights\<close> returns at
  its guard before it resets anything. A manager that was handed one match in such a
  page still holds it after \<open>clearHighlights()\<close>.
\<close>

theorem clearHighlights_unsupported_keeps_matches:
  "hm_matches (fst (after clearHighlights
      (after (highlightMatches [sample_match 0]) (new_HighlightManager, page_unsupported))))
     = [sample_match 0]
   \<and> hm_matches (fst (after clearHighlights
      (after (highlightMatches [sample_match 0]) (new_HighlightManager, page_unsupported))))
     \<noteq> []"
  by (simp add: after_def highlightMatches_unsupported clearHighlights_unsupported
      page_unsupported_def)

text \<open>
  C4, amended. In every state of a page that supports highlights, \<open>clearHighlights()\<close>
  returns with the match sequence empty and the current index -1; and in every state,
  supported or not, a second call right after the first returns the same outcome and
  leaves the same state as the first call alone.
\<close>

theorem clearHighlights_resets_and_is_idempotent:
  "(isSupported pg \<longrightarrow>
      fst (clearHighlights (this, pg)) = Returned \<and>
      hm_matches (fst (after clearHighlights (this, pg))) = [] \<and>
      currentIndex (fst (after clearHighlights (this, pg))) = - 1) \<and>
   clearHighlights (after clearHighlights (this, pg)) = clearHighlights (this, pg)"
proof (cases "CSS_highlights pg")
  case None
  then show ?thesis
    by (simp add: after_def isSupported_def clearHighlights_unsupported)
next
  case (Some registry)
  then have pg: "pg = pg\<lparr>CSS_highlights := Some registry\<rparr>" by simp
  show ?thesis
    by (subst (1 2 3 4 5 6) pg)
       (simp add: after_def isSupported_def clearHighlights_supported)
qed

theorem clearHighlights_resets_and_is_idempotent_witness:
  "isSupported page_supported \<and>
   fst (clearHighlights (three_matches, page_supported)) = Returned \<and>
   hm_matches (fst (after clearHighlights (three_matches, page_supported))) = [] \<and>
   currentIndex (fst (after clearHighlights (three_matches, page_supported))) = - 1 \<and>
   clearHighlights (after clearHighlights (three_matches, page_supported)) =
     clearHighlights (three_matches, page_supported)"
  using clearHighlights_resets_and_is_idempotent [of page_supported three_matches]
  by (simp add: isSupported_def page_supported_def)

subsection \<open>Navigation\<close>

lemma setCurrentMatch_in_range:
  assumes "0 \<le> i" "i < int (length (hm_matches this))"
  shows "currentIndex (fst (after (setCurrentMatch i) (this, pg))) = i \<and>
         hm_matches (fst (after (setCurrentMatch i) (this, pg))) = hm_matches this"
  using assms
  by (simp add: after_def setCurrentMatch_def scrollToMatch_def highlights_delete_def
      highlights_set_def new_Highlight_def Let_def split: option.splits)

lemma setCurrentMatch_out_of_range:
  assumes "i < 0 \<or> int (length (hm_matches this)) \<le> i"
  shows "setCurrentMatch i (this, pg) =
           (Returned, this, pg\<lparr>console_warn := console_warn pg @ [i]\<rparr>)"
  using assms by (auto simp add: setCurrentMatch_def)

lemma nextMatch_step:
  assumes "hm_matches this \<noteq> []" "0 \<le> currentIndex this"
  shows "currentIndex (fst (after nextMatch (this, pg))) =
           (currentIndex this + 1) mod int (length (hm_matches this)) \<and>
         hm_matches (fst (after nextMatch (this, pg))) = hm_matches this"
proof -
  let ?n = "int (length (hm_matches this))"
  let ?j = "(currentIndex this + 1) mod ?n"
  have n: "0 < ?n" using assms(1) by simp
  have j: "0 \<le> ?j" "?j < ?n" using n by simp_all
  have "after nextMatch (this, pg) = after (setCurrentMatch ?j) (this, pg)"
    using assms by (simp add: after_def nextMatch_def js_rem_def Let_def)
  then show ?thesis using setCurrentMatch_in_range [OF j, of pg] by simp
qed

lemma nextMatch_iterate:
  assumes "hm_matches this \<noteq> []" "currentIndex this = 0"
  shows "currentIndex (fst ((after nextMatch ^^ k) (this, pg))) =
           int k mod int (length (hm_matches this)) \<and>
         hm_matches (fst ((after nextMatch ^^ k) (this, pg))) = hm_matches this"
proof (induction k)
  case 0
  then show ?case using assms by simp
next
  case (Suc k)
  obtain this' pg' where s: "(after nextMatch ^^ k) (this, pg) = (this', pg')"
    by (cases "(after nextMatch ^^ k) (this, pg)")
  from Suc s have ih: "currentIndex this' = int k mod int (length (hm_matches this))"
    "hm_matches this' = hm_matches this" by simp_all
  have ne: "hm_matches this' \<noteq> []" using ih assms by simp
  have nn: "0 \<le> currentIndex this'" using ih assms by simp
  show ?case
    using nextMatch_step [OF ne nn, of pg'] ih s
    by (simp add: mod_simps add.commute)
qed

lemma previousMatch_from_first:
  assumes "hm_matches this \<noteq> []" "currentIndex this = 0"
  shows "currentIndex (fst (after previousMatch (this, pg))) =
           int (length (hm_matches this)) - 1"
proof -
  let ?j = "int (length (hm_matches this)) - 1"
  have j: "0 \<le> ?j" "?j < int (length (hm_matches this))"
    using assms(1) by (simp_all add: Suc_leI)
  have "after previousMatch (this, pg) = after (setCurrentMatch ?j) (this, pg)"
    using assms by (simp add: after_def previousMatch_def Let_def)
  then show ?thesis using setCurrentMatch_in_range [OF j, of pg] by simp
qed

lemma setCurrentMatch_supported:
  assumes "0 \<le> i" "i < int (length (hm_matches this))" "CSS_highlights pg = Some registry"
  shows "setCurrentMatch i (this, pg) =
           (Returned,
            this\<lparr>currentIndex := i,
                 currentMatchHighlight := Some [range' (hm_matches this ! nat i)]\<rparr>,
            pg\<lparr>CSS_highlights :=
                  Some (registry(CURRENT_MATCH_NAME \<mapsto> [range' (hm_matches this ! nat i)])),
               scroll_requests := scroll_requests pg @ [range' (hm_matches this ! nat i)]\<rparr>)"
  using assms
  by (cases "currentMatchHighlight this")
     (simp_all add: setCurrentMatch_def scrollToMatch_def highlights_delete_def
        highlights_set_def new_Highlight_def Let_def)

lemma setCurrentMatch_returns:
  assumes "0 \<le> i" "i < int (length (hm_matches this))" "isSupported pg"
  shows "fst (setCurrentMatch i (this, pg)) = Returned \<and>
         isSupported (snd (after (setCurrentMatch i) (this, pg)))"
proof -
  from assms(3) obtain registry where "CSS_highlights pg = Some registry"
    by (cases "CSS_highlights pg") (simp_all add: isSupported_def)
  from setCurrentMatch_supported [OF assms(1,2) this] show ?thesis
    by (simp add: after_def isSupported_def)
qed

lemma next_index:
  assumes "hm_matches this \<noteq> []" "0 \<le> currentIndex this"
    "currentIndex this < int (length (hm_matches this))"
  shows "(currentIndex this + 1) mod int (length (hm_matches this)) =
           (if currentIndex this = int (length (hm_matches this)) - 1 then 0
            else currentIndex this + 1)"
  using assms by auto

lemma nextMatch_is_setCurrentMatch:
  assumes "hm_matches this \<noteq> []" "0 \<le> currentIndex this"
  shows "nextMatch (this, pg) =
           setCurrentMatch ((currentIndex this + 1) mod int (length (hm_matches this))) (this, pg)"
  using assms by (simp add: nextMatch_def js_rem_def Let_def)

lemma previousMatch_is_setCurrentMatch:
  assumes "hm_matches this \<noteq> []"
  shows "previousMatch (this, pg) =
           setCurrentMatch (if currentIndex this - 1 < 0 then int (length (hm_matches this)) - 1
                            else currentIndex this - 1) (this, pg)"
  using assms by (simp add: previousMatch_def Let_def)

lemma previousMatch_step:
  assumes "hm_matches this \<noteq> []" "0 \<le> currentIndex this"
    "currentIndex this < int (length (hm_matches this))"
  shows "currentIndex (fst (after previousMatch (this, pg))) =
           (if currentIndex this = 0 then int (length (hm_matches this)) - 1
            else currentIndex this - 1) \<and>
         hm_matches (fst (after previousMatch (this, pg))) = hm_matches this"
proof -
  let ?j = "if currentIndex this - 1 < 0 then int (length (hm_matches this)) - 1
            else currentIndex this - 1"
  have j: "0 \<le> ?j" "?j < int (length (hm_matches this))"
    using assms by auto
  have e: "?j = (if currentIndex this = 0 then int (length (hm_matches this)) - 1
            else currentIndex this - 1)"
    using assms by auto
  have "after previousMatch (this, pg) = after (setCurrentMatch ?j) (this, pg)"
    by (simp only: after_def previousMatch_is_setCurrentMatch [OF assms(1)])
  then show ?thesis
    using setCurrentMatch_in_range [OF j, of pg] e by simp
qed

lemma nextMatch_returns:
  assumes "hm_matches this \<noteq> []" "0 \<le> currentIndex this" "isSupported pg"
  shows "fst (nextMatch (this, pg)) = Returned \<and> isSupported (snd (after nextMatch (this, pg)))"
proof -
  let ?j = "(currentIndex this + 1) mod int (length (hm_matches this))"
  have j: "0 \<le> ?j" "?j < int (length (hm_matches this))" using assms(1) by simp_all
  from setCurrentMatch_returns [OF j assms(3)] show ?thesis
    by (simp only: after_def nextMatch_is_setCurrentMatch [OF assms(1,2)])
qed

lemma previousMatch_returns:
  assumes "hm_matches this \<noteq> []" "0 \<le> currentIndex this"
    "currentIndex this < int (length (hm_matches this))" "isSupported pg"
  shows "fst (previousMatch (this, pg)) = Returned"
proof -
  let ?j = "if currentIndex this - 1 < 0 then int (length (hm_matches this)) - 1
            else currentIndex this - 1"
  have j: "0 \<le> ?j" "?j < int (length (hm_matches this))"
    using assms by auto
  from setCurrentMatch_returns [OF j assms(4)] show ?thesis
    by (simp only: previousMatch_is_setCurrentMatch [OF assms(1)])
qed

lemma repeat_call_nextMatch:
  assumes "hm_matches this \<noteq> []" "0 \<le> currentIndex this" "isSupported pg"
  shows "repeat_call k nextMatch (this, pg) = (Returned, (after nextMatch ^^ k) (this, pg))"
  using assms
proof (induction k arbitrary: this pg)
  case 0
  then show ?case by simp
next
  case (Suc k)
  obtain this' pg' where s: "after nextMatch (this, pg) = (this', pg')"
    by (cases "after nextMatch (this, pg)")
  from nextMatch_returns [OF Suc.prems] s
  have r: "nextMatch (this, pg) = (Returned, this', pg')" and sup: "isSupported pg'"
    by (simp_all add: after_def prod_eq_iff)
  from nextMatch_step [OF Suc.prems(1,2), of pg] s
  have m: "hm_matches this' \<noteq> []" and i: "0 \<le> currentIndex this'"
    using Suc.prems(1) by simp_all
  have "(after nextMatch ^^ Suc k) (this, pg) = (after nextMatch ^^ k) (this', pg')"
    by (simp only: funpow_Suc_right o_apply s)
  with Suc.IH [OF m i sup] r show ?case by simp
qed

text \<open>
  C9. Navigation is cyclic, step by step. In any state with \<open>N > 0\<close> matches and
  a current index \<open>i\<close> with \<open>0 \<le> i < N\<close>: \<open>nextMatch()\<close> is
  \<open>setCurrentMatch\<close> of \<open>i + 1\<close>, or of 0 when \<open>i\<close> is the last index, and
  \<open>previousMatch()\<close> is \<open>setCurrentMatch\<close> of \<open>i - 1\<close>, or of \<open>N - 1\<close> when
  \<open>i\<close> is 0; the call leaves exactly that current index and the same match
  sequence, and in a page that supports highlights it returns. From current index 0,
  \<open>k\<close> calls of \<open>nextMatch()\<close> leave the index \<open>k mod N\<close>, so \<open>N\<close> calls bring
  it back to 0, and one call of \<open>previousMatch()\<close> makes it \<open>N - 1\<close>; in a page
  that supports highlights a caller making the \<open>N\<close> calls in a row sees every one
  return. With no matches both calls return at once and change nothing. Where the
  highlight registry is missing the index is the one the call has assigned before it
  throws.
\<close>

theorem navigation_is_cyclic:
  "(hm_matches this \<noteq> [] \<and> 0 \<le> currentIndex this \<and>
    currentIndex this < int (length (hm_matches this)) \<longrightarrow>
      nextMatch (this, pg) =
        setCurrentMatch (if currentIndex this = int (length (hm_matches this)) - 1 then 0
                         else currentIndex this + 1) (this, pg) \<and>
      previousMatch (this, pg) =
        setCurrentMatch (if currentIndex this = 0 then int (length (hm_matches this)) - 1
                         else currentIndex this - 1) (this, pg) \<and>
      getCurrentIndex (fst (after nextMatch (this, pg))) =
        (if currentIndex this = int (length (hm_matches this)) - 1 then 0
         else currentIndex this + 1) \<and>
      hm_matches (fst (after nextMatch (this, pg))) = hm_matches this \<and>
      getCurrentIndex (fst (after previousMatch (this, pg))) =
        (if currentIndex this = 0 then int (length (hm_matches this)) - 1
         else currentIndex this - 1) \<and>
      hm_matches (fst (after previousMatch (this, pg))) = hm_matches this \<and>
      (isSupported pg \<longrightarrow>
         fst (nextMatch (this, pg)) = Returned \<and> fst (previousMatch (this, pg)) = Returned)) \<and>
   (hm_matches this \<noteq> [] \<and> currentIndex this = 0 \<longrightarrow>
      (\<forall>k. getCurrentIndex (fst ((after nextMatch ^^ k) (this, pg))) =
             int k mod int (length (hm_matches this)) \<and>
           hm_matches (fst ((after nextMatch ^^ k) (this, pg))) = hm_matches this) \<and>
      getCurrentIndex (fst ((after nextMatch ^^ length (hm_matches this)) (this, pg))) = 0 \<and>
      getCurrentIndex (fst (after previousMatch (this, pg))) =
        int (length (hm_matches this)) - 1 \<and>
      (isSupported pg \<longrightarrow>
         repeat_call (length (hm_matches this)) nextMatch (this, pg) =
           (Returned, (after nextMatch ^^ length (hm_matches this)) (this, pg)))) \<and>
   (hm_matches this \<noteq> [] \<and> currentIndex this = int (length (hm_matches this)) - 1 \<longrightarrow>
      getCurrentIndex (fst (after nextMatch (this, pg))) = 0) \<and>
   (hm_matches this = [] \<longrightarrow>
      nextMatch (this, pg) = (Returned, this, pg) \<and>
      previousMatch (this, pg) = (Returned, this, pg))"
proof (intro conjI impI)
  assume a: "hm_matches this \<noteq> [] \<and> 0 \<le> currentIndex this \<and>
    currentIndex this < int (length (hm_matches this))"
  then have m: "hm_matches this \<noteq> []" and lo: "0 \<le> currentIndex this"
    and hi: "currentIndex this < int (length (hm_matches this))" by simp_all
  note ni = next_index [OF m lo hi]
  show "nextMatch (this, pg) =
        setCurrentMatch (if currentIndex this = int (length (hm_matches this)) - 1 then 0
                         else currentIndex this + 1) (this, pg)"
    by (simp only: nextMatch_is_setCurrentMatch [OF m lo] ni)
  have "(if currentIndex this - 1 < 0 then int (length (hm_matches this)) - 1
         else currentIndex this - 1) =
        (if currentIndex this = 0 then int (length (hm_matches this)) - 1
         else currentIndex this - 1)"
    using lo by auto
  then show "previousMatch (this, pg) =
        setCurrentMatch (if currentIndex this = 0 then int (length (hm_matches this)) - 1
                         else currentIndex this - 1) (this, pg)"
    by (simp only: previousMatch_is_setCurrentMatch [OF m])
  show "getCurrentIndex (fst (after nextMatch (this, pg))) =
        (if currentIndex this = int (length (hm_matches this)) - 1 then 0
         else currentIndex this + 1)"
    using nextMatch_step [OF m lo, of pg] by (simp only: getCurrentIndex_def ni)
  show "hm_matches (fst (after nextMatch (this, pg))) = hm_matches this"
    using nextMatch_step [OF m lo, of pg] by blast
  show "getCurrentIndex (fst (after previousMatch (this, pg))) =
        (if currentIndex this = 0 then int (length (hm_matches this)) - 1
         else currentIndex this - 1)"
    using previousMatch_step [OF m lo hi, of pg] by (simp only: getCurrentIndex_def)
  show "hm_matches (fst (after previousMatch (this, pg))) = hm_matches this"
    using previousMatch_step [OF m lo hi, of pg] by blast
  assume s: "isSupported pg"
  show "fst (nextMatch (this, pg)) = Returned"
    using nextMatch_returns [OF m lo s] by blast
  show "fst (previousMatch (this, pg)) = Returned"
    using previousMatch_returns [OF m lo hi s] .
next
  assume a: "hm_matches this \<noteq> [] \<and> currentIndex this = 0"
  then have m: "hm_matches this \<noteq> []" and z: "currentIndex this = 0" by simp_all
  show "\<forall>k. getCurrentIndex (fst ((after nextMatch ^^ k) (this, pg))) =
             int k mod int (length (hm_matches this)) \<and>
           hm_matches (fst ((after nextMatch ^^ k) (this, pg))) = hm_matches this"
    using nextMatch_iterate [OF m z, of _ pg] by (simp only: getCurrentIndex_def) blast
  show "getCurrentIndex (fst ((after nextMatch ^^ length (hm_matches this)) (this, pg))) = 0"
    using nextMatch_iterate [OF m z, of "length (hm_matches this)" pg]
    by (simp add: getCurrentIndex_def)
  show "getCurrentIndex (fst (after previousMatch (this, pg))) =
      int (length (hm_matches this)) - 1"
    using previousMatch_from_first [OF m z, of pg] by (simp add: getCurrentIndex_def)
  assume s: "isSupported pg"
  have "0 \<le> currentIndex this" using z by simp
  from repeat_call_nextMatch [OF m this s]
  show "repeat_call (length (hm_matches this)) nextMatch (this, pg) =
           (Returned, (after nextMatch ^^ length (hm_matches this)) (this, pg))" .
next
  assume a: "hm_matches this \<noteq> [] \<and> currentIndex this = int (length (hm_matches this)) - 1"
  then have "0 \<le> currentIndex this" by (simp add: Suc_leI)
  with a show "getCurrentIndex (fst (after nextMatch (this, pg))) = 0"
    using nextMatch_step [of this pg] by (simp add: getCurrentIndex_def)
next
  assume "hm_matches this = []"
  then show "nextMatch (this, pg) = (Returned, this, pg)" by (simp add: nextMatch_def)
next
  assume "hm_matches this = []"
  then show "previousMatch (this, pg) = (Returned, this, pg)" by (simp add: previousMatch_def)
qed

theorem navigation_is_cyclic_witness:
  "getCurrentIndex (fst (after nextMatch (three_matches, page_supported))) = 1 \<and>
   fst (nextMatch (three_matches, page_supported)) = Returned \<and>
   fst (previousMatch (three_matches, page_supported)) = Returned \<and>
   hm_matches (fst (after nextMatch (three_matches, page_supported))) =
     [sample_match 0, sample_match 1, sample_match 2] \<and>
   getCurrentIndex (fst ((after nextMatch ^^ 2) (three_matches, page_supported))) = 2 \<and>
   getCurrentIndex (fst ((after nextMatch ^^ 3) (three_matches, page_supported))) = 0 \<and>
   repeat_call 3 nextMatch (three_matches, page_supported) =
     (Returned, (after nextMatch ^^ 3) (three_matches, page_supported)) \<and>
   getCurrentIndex (fst (after previousMatch (three_matches, page_supported))) = 2 \<and>
   getCurrentIndex (fst (after nextMatch
      (three_matches\<lparr>currentIndex := 2\<rparr>, page_supported))) = 0 \<and>
   getCurrentIndex (fst (after previousMatch
      (three_matches\<lparr>currentIndex := 2\<rparr>, page_supported))) = 1 \<and>
   getCurrentIndex (fst (after nextMatch (three_matches, page_unsupported))) = 1 \<and>
   nextMatch (new_HighlightManager, page_supported) =
     (Returned, new_HighlightManager, page_supported) \<and>
   previousMatch (new_HighlightManager, page_supported) =
     (Returned, new_HighlightManager, page_supported)"
proof -
  let ?T = three_matches and ?T2 = "three_matches\<lparr>currentIndex := 2\<rparr>"
  have L: "length (hm_matches ?T) = 3" "length (hm_matches ?T2) = 3"
    and M: "hm_matches ?T = [sample_match 0, sample_match 1, sample_match 2]"
    and I: "currentIndex ?T = 0" "currentIndex ?T2 = 2"
    by (simp_all add: three_matches_def)
  have h1: "hm_matches ?T \<noteq> [] \<and> 0 \<le> currentIndex ?T \<and>
      currentIndex ?T < int (length (hm_matches ?T))"
    and h2: "hm_matches ?T \<noteq> [] \<and> currentIndex ?T = 0"
    and h3: "hm_matches ?T2 \<noteq> [] \<and> 0 \<le> currentIndex ?T2 \<and>
      currentIndex ?T2 < int (length (hm_matches ?T2))"
    and h4: "hm_matches new_HighlightManager = []"
    and s: "isSupported page_supported"
    by (simp_all add: three_matches_def new_HighlightManager_def isSupported_def
        page_supported_def)
  note a = navigation_is_cyclic [of ?T page_supported]
  note b = navigation_is_cyclic [of ?T2 page_supported]
  note c = navigation_is_cyclic [of new_HighlightManager page_supported]
  note d = navigation_is_cyclic [of ?T page_unsupported]
  from a h1 s have a1:
    "getCurrentIndex (fst (after nextMatch (?T, page_supported))) =
       (if currentIndex ?T = int (length (hm_matches ?T)) - 1 then 0 else currentIndex ?T + 1)"
    "fst (nextMatch (?T, page_supported)) = Returned"
    "fst (previousMatch (?T, page_supported)) = Returned"
    "hm_matches (fst (after nextMatch (?T, page_supported))) = hm_matches ?T"
    by blast+
  from a h2 s have a2:
    "\<forall>k. getCurrentIndex (fst ((after nextMatch ^^ k) (?T, page_supported))) =
           int k mod int (length (hm_matches ?T)) \<and>
         hm_matches (fst ((after nextMatch ^^ k) (?T, page_supported))) = hm_matches ?T"
    "getCurrentIndex (fst ((after nextMatch ^^ length (hm_matches ?T)) (?T, page_supported))) = 0"
    "getCurrentIndex (fst (after previousMatch (?T, page_supported))) =
       int (length (hm_matches ?T)) - 1"
    "repeat_call (length (hm_matches ?T)) nextMatch (?T, page_supported) =
       (Returned, (after nextMatch ^^ length (hm_matches ?T)) (?T, page_supported))"
    by blast+
  from a2(1) have a3:
    "getCurrentIndex (fst ((after nextMatch ^^ 2) (?T, page_supported))) =
       int 2 mod int (length (hm_matches ?T))"
    by blast
  from b h3 have b1:
    "getCurrentIndex (fst (after nextMatch (?T2, page_supported))) =
       (if currentIndex ?T2 = int (length (hm_matches ?T2)) - 1 then 0 else currentIndex ?T2 + 1)"
    "getCurrentIndex (fst (after previousMatch (?T2, page_supported))) =
       (if currentIndex ?T2 = 0 then int (length (hm_matches ?T2)) - 1 else currentIndex ?T2 - 1)"
    by blast+
  from c h4 have c1: "nextMatch (new_HighlightManager, page_supported) =
     (Returned, new_HighlightManager, page_supported)"
    "previousMatch (new_HighlightManager, page_supported) =
     (Returned, new_HighlightManager, page_supported)"
    by blast+
  from d h1 have d1:
    "getCurrentIndex (fst (after nextMatch (?T, page_unsupported))) =
       (if currentIndex ?T = int (length (hm_matches ?T)) - 1 then 0 else currentIndex ?T + 1)"
    by blast
  have w1: "getCurrentIndex (fst (after nextMatch (?T, page_supported))) = 1"
    using a1(1) unfolding L I by simp
  have w2: "hm_matches (fst (after nextMatch (?T, page_supported))) =
      [sample_match 0, sample_match 1, sample_match 2]"
    using a1(4) unfolding M .
  have w3: "getCurrentIndex (fst ((after nextMatch ^^ 2) (?T, page_supported))) = 2"
    using a3 unfolding L by simp
  have w4: "getCurrentIndex (fst ((after nextMatch ^^ 3) (?T, page_supported))) = 0"
    using a2(2) unfolding L .
  have w5: "repeat_call 3 nextMatch (?T, page_supported) =
      (Returned, (after nextMatch ^^ 3) (?T, page_supported))"
    using a2(4) unfolding L .
  have w6: "getCurrentIndex (fst (after previousMatch (?T, page_supported))) = 2"
    using a2(3) unfolding L by simp
  have w7: "getCurrentIndex (fst (after nextMatch (?T2, page_supported))) = 0"
    using b1(1) unfolding L I by simp
  have w8: "getCurrentIndex (fst (after previousMatch (?T2, page_supported))) = 1"
    using b1(2) unfolding L I by simp
  have w9: "getCurrentIndex (fst (after nextMatch (?T, page_unsupported))) = 1"
    using d1 unfolding L I by simp
  from w1 a1(2,3) w2 w3 w4 w5 w6 w7 w8 w9 c1 show ?thesis
    by (intro conjI)
qed

text \<open>In a page that supports highlights no navigation call throws.\<close>

lemma nextMatch_returns_when_supported:
  "fst (nextMatch (this, pg\<lparr>CSS_highlights := Some registry\<rparr>)) = Returned"
  by (simp add: nextMatch_def setCurrentMatch_def scrollToMatch_def highlights_delete_def
      highlights_set_def new_Highlight_def Let_def)

section \<open>SearchEngine: search\<close>

lemma search_totalCount:
  "totalCount (search h searchText options rootElement) =
     length (matches (search h searchText options rootElement))"
  by (cases "buildPattern h searchText options")
     (simp_all add: search_def empty_result_def Let_def)

text \<open>Once the ceiling is reached no further node is searched.\<close>

lemma search_nodes_at_cap:
  "MAX_MATCHES \<le> length ms \<Longrightarrow> search_nodes pattern nodes ms = ms"
  by (cases nodes) simp_all

lemma letter_a_built:
  "buildPattern fragment_host ''a'' (options_of False False False) = Some letter_a"
  by (simp add: buildPattern_def options_of_def escapeRegex_def special_characters_def
      backslash_def fragment_host_def fragment_RegExp_def parse_pattern_def plain_token_def
      push_term_def empty_frame_def close_frame_def letter_a_def)

lemma letter_a_match_at:
  "match_at letter_a (replicate n (CHR ''a'')) j = (if j < n then Some 1 else None)"
  by (simp add: letter_a_def RegExp_of_def char_matches_def)

lemma first_match_past_end: "length s < i \<Longrightarrow> first_match m s i = None"
  by (simp add: first_match.simps [of m s i])

lemma first_match_letter_a:
  "j \<le> n \<Longrightarrow>
   first_match (match_at letter_a) (replicate n (CHR ''a'')) j = (if j < n then Some (j, 1) else None)"
  by (simp add: first_match.simps [of _ _ j] first_match_past_end letter_a_match_at)

lemma exec_letter_a:
  "j \<le> n \<Longrightarrow>
   exec (letter_a\<lparr>lastIndex := j\<rparr>) (replicate n (CHR ''a'')) =
     (if j < n
      then (Some \<lparr>exec_index = j, exec_0 = ''a''\<rparr>, letter_a\<lparr>lastIndex := Suc j\<rparr>)
      else (None, letter_a\<lparr>lastIndex := 0\<rparr>))"
  by (simp add: exec_def first_match_letter_a take_Suc_conv_app_nth)

lemma findMatches_loop_letter_a:
  "j \<le> n \<Longrightarrow>
   length (findMatches_loop nd (replicate n (CHR ''a'')) k (letter_a\<lparr>lastIndex := j\<rparr>) ms) =
     length ms + (n - j)"
proof (induction "n - j" arbitrary: j ms)
  case 0
  then have "j = n" by simp
  then show ?case
    by (simp add: findMatches_loop.simps [of nd _ k "letter_a\<lparr>lastIndex := n\<rparr>" ms] exec_letter_a)
next
  case (Suc d)
  then have j: "j < n" "Suc j \<le> n" "d = n - Suc j" by simp_all
  have "findMatches_loop nd (replicate n (CHR ''a'')) k (letter_a\<lparr>lastIndex := j\<rparr>) ms =
        findMatches_loop nd (replicate n (CHR ''a'')) k (letter_a\<lparr>lastIndex := Suc j\<rparr>)
          (ms @ [createMatchData nd \<lparr>exec_index = j, exec_0 = ''a''\<rparr> (k + length ms)])"
    using j(1)
    by (subst findMatches_loop.simps) (simp add: exec_letter_a)
  then show ?case
    using Suc.hyps(1) [OF j(3) j(2)] j by simp
qed

lemma trim_eq_Nil: "trim s = [] \<longleftrightarrow> (\<forall>c \<in> set s. is_white_space c)"
proof -
  have "trim s = [] \<longleftrightarrow> dropWhile is_white_space s = []"
  proof (cases "dropWhile is_white_space s")
    case Nil
    show ?thesis by (simp only: trim_def Nil rev.simps dropWhile.simps)
  next
    case (Cons y ys)
    with hd_dropWhile [of is_white_space s] have "\<not> is_white_space y" by simp
    then have "dropWhile is_white_space (rev (y # ys)) \<noteq> []"
      by simp
    then show ?thesis by (simp only: trim_def Cons rev_is_Nil_conv) simp
  qed
  then show ?thesis by (simp only: dropWhile_eq_Nil_conv)
qed

lemma long_paragraph_nodes:
  "0 < n \<Longrightarrow>
   getTextNodesGenerator (paragraph_doc (replicate n (CHR ''a''))) =
     [\<lparr>node_id = 0, textContent = replicate n (CHR ''a'')\<rparr>]"
  by (simp add: getTextNodesGenerator_def paragraph_doc_def shouldIncludeNode_def visible_def
      trim_eq_Nil is_white_space_def toLowerCase_def to_lower_def Let_def)

text \<open>
  Where every occurrence is in a text node of its own the ceiling is met exactly: of
  10,050 one-letter nodes the first 10,000 are searched.
\<close>

lemma findMatchesInNode_one_letter:
  "textContent nd = ''a'' \<Longrightarrow> length (findMatchesInNode nd letter_a k) = 1"
  using findMatches_loop_letter_a [of 0 1 nd k "[]"]
  by (simp add: findMatchesInNode_def)

lemma search_nodes_one_letter:
  assumes "list_all (\<lambda>nd. textContent nd = ''a'') nodes"
  shows "length (search_nodes letter_a nodes ms) =
           (if MAX_MATCHES \<le> length ms then length ms
            else min MAX_MATCHES (length ms + length nodes))"
  using assms
proof (induction nodes arbitrary: ms)
  case Nil
  then show ?case by simp
next
  case (Cons nd nodes)
  then have one: "length (findMatchesInNode nd letter_a (length ms)) = 1"
    by (simp add: findMatchesInNode_one_letter)
  from Cons have rest: "list_all (\<lambda>nd. textContent nd = ''a'') nodes" by simp
  show ?case
    using Cons.IH [OF rest, of "ms @ findMatchesInNode nd letter_a (length ms)"] one
    by (auto simp: min_def)
qed

lemma one_letter_doc_nodes:
  "getTextNodesGenerator (one_letter_doc n) = one_letter_nodes n"
proof -
  have "text_nodes_under (''BODY'', visible) (Text \<lparr>node_id = i, textContent = ''a''\<rparr>) =
          [\<lparr>node_id = i, textContent = ''a''\<rparr>]" for i
    by (simp add: shouldIncludeNode_def visible_def trim_def is_white_space_def
        toLowerCase_def to_lower_def Let_def)
  then have "concat (map (text_nodes_under (''BODY'', visible)) (map Text (one_letter_nodes n))) =
        one_letter_nodes n"
    by (induction n) (simp_all add: one_letter_nodes_def)
  then show ?thesis
    by (simp add: getTextNodesGenerator_def one_letter_doc_def)
qed

lemma search_capped_across_nodes:
  "length (matches (search fragment_host ''a'' (options_of False False False)
     (one_letter_doc 10050))) = 10000"
proof -
  have "list_all (\<lambda>nd. textContent nd = ''a'') (one_letter_nodes 10050)"
    by (simp add: one_letter_nodes_def list_all_iff)
  from search_nodes_one_letter [OF this, of "[]"] show ?thesis
    by (simp add: search_def letter_a_built one_letter_doc_nodes MAX_MATCHES_def Let_def
        one_letter_nodes_def)
qed

text \<open>
  C2. The claim: \<open>search\<close> never returns more than 10,000 matches, and a document
  with 10,050 occurrences of a one-character query yields exactly 10,000. The code
  compares the number of matches with \<open>MAX_MATCHES\<close> only before it starts a text
  node, and \<open>findMatchesInNode\<close> has no ceiling: for the query \<open>a\<close> and a
  paragraph whose single text node is 10,050 letters \<open>a\<close>, it returns 10,050
  matches, and \<open>totalCount\<close> is 10,050.
\<close>

theorem search_exceeds_MAX_MATCHES:
  "length (matches (search fragment_host ''a'' (options_of False False False)
      (paragraph_doc (replicate 10050 (CHR ''a''))))) = 10050 \<and>
   totalCount (search fragment_host ''a'' (options_of False False False)
      (paragraph_doc (replicate 10050 (CHR ''a'')))) = 10050 \<and>
   MAX_MATCHES = 10000"
  using findMatches_loop_letter_a [of 0 10050 "\<lparr>node_id = 0, textContent = replicate 10050 (CHR ''a'')\<rparr>" 0 "[]"]
  by (simp add: search_def letter_a_built long_paragraph_nodes MAX_MATCHES_def
      findMatchesInNode_def Let_def)

text \<open>
  C5, as stated, fails for a text of white space: the engine tests \<open>!searchText\<close>
  and does not trim (the controller trims before it calls). The query of two blanks
  trims to the empty string, yet it is compiled and finds the two blanks of
  \<open>a  b\<close>.
\<close>

theorem search_blank_text_finds_matches:
  "trim ''  '' = [] \<and>
   spans (search fragment_host ''  '' (options_of False False False) (paragraph_doc ''a  b'')) =
     [(''  '', 1, 3)] \<and>
   matches (search fragment_host ''  '' (options_of False False False) (paragraph_doc ''a  b''))
     \<noteq> []"
  by code_simp

text \<open>
  C5, amended. For the empty text, whatever the options, the root and the host,
  \<open>search\<close> returns no matches, \<open>totalCount\<close> 0 and \<open>searchTime\<close> 0: the result
  does not depend on the pattern compiler or on the document.
\<close>

theorem search_empty_text:
  "search h [] options rootElement = \<lparr>matches = [], totalCount = 0, searchTime = 0\<rparr>"
  by (simp add: search_def empty_result_def)

text \<open>
  C6, as stated, fails for a pattern that matches the empty string: the loop of
  \<open>findMatchesInNode\<close> records zero-width matches and only then steps over them.
  The regular expression \<open>a*\<close> in the text \<open>b\<close> gives two matches, at 0 and at 1,
  each with \<open>startOffset = endOffset\<close>.
\<close>

theorem search_zero_width_matches:
  "spans (search fragment_host ''a*'' (options_of True True False) (paragraph_doc ''b'')) =
     [([], 0, 0), ([], 1, 1)] \<and>
   \<not> list_all (\<lambda>m. startOffset m < endOffset m)
     (matches (search fragment_host ''a*'' (options_of True True False) (paragraph_doc ''b'')))"
  by code_simp

lemma createMatchData_well_formed:
  assumes "exec p (textContent nd) = (Some match, p')"
  shows "well_formed_match (createMatchData nd match k) \<and> node (createMatchData nd match k) = nd"
proof -
  from assms obtain i n where
    f: "first_match (match_at p) (textContent nd) (lastIndex p) = Some (i, n)"
    and m: "match = \<lparr>exec_index = i, exec_0 = take n (drop i (textContent nd))\<rparr>"
    by (auto simp: exec_def split: option.splits)
  from first_match_bounds [OF f] have "i \<le> length (textContent nd)" by simp
  then show ?thesis
    by (auto simp: well_formed_match_def createMatchData_def m min_def)
qed

lemma findMatches_loop_invariant:
  assumes "list_all Q ms"
    and "\<And>p match p' k. exec p s = (Some match, p') \<Longrightarrow> Q (createMatchData nd match k)"
  shows "list_all Q (findMatches_loop nd s k0 p ms)"
  using assms
proof (induction nd s k0 p ms rule: findMatches_loop.induct)
  case (1 textNode s startIndex pattern ms)
  show ?case
  proof (cases "exec pattern s")
    case (Pair x pattern1)
    show ?thesis
    proof (cases x)
      case None
      with Pair "1.prems"(1) show ?thesis
        by (simp add: findMatches_loop.simps [of textNode s startIndex pattern ms])
    next
      case (Some match)
      have e: "exec pattern s = (Some match, pattern1)" using Pair Some by simp
      have "list_all Q (ms @ [createMatchData textNode match (startIndex + length ms)])"
        using "1.prems"(1) "1.prems"(2) [OF e] by simp
      from "1.IH" [OF Pair [symmetric] Some this "1.prems"(2)] show ?thesis
        by (simp add: findMatches_loop.simps [of textNode s startIndex pattern ms] e)
    qed
  qed
qed

lemma findMatchesInNode_invariant:
  "list_all (\<lambda>m. well_formed_match m \<and> node m = nd) (findMatchesInNode nd p k)"
  unfolding findMatchesInNode_def
  by (rule findMatches_loop_invariant) (simp_all add: createMatchData_well_formed)

lemma search_nodes_invariant:
  assumes "list_all (\<lambda>m. well_formed_match m \<and> node m \<in> set nodes0) ms"
    and "set nodes \<subseteq> set nodes0"
  shows "list_all (\<lambda>m. well_formed_match m \<and> node m \<in> set nodes0) (search_nodes p nodes ms)"
  using assms
proof (induction nodes arbitrary: ms)
  case Nil
  then show ?case by simp
next
  case (Cons nd nodes)
  have "list_all (\<lambda>m. well_formed_match m \<and> node m \<in> set nodes0)
          (findMatchesInNode nd p (length ms))"
    using findMatchesInNode_invariant [of nd p "length ms"] Cons.prems(2)
    by (auto simp: list_all_iff)
  with Cons show ?case by simp
qed

text \<open>
  C6, amended. For every host, query, options and document, every match descriptor
  that \<open>search\<close> returns has \<open>0 \<le> startOffset \<le> endOffset \<le>\<close> the length of its
  node's text; the inequality between start and end is strict exactly when the matched
  text is not empty; the matched text is the characters of the node between the two
  offsets; and the node is one of the text nodes the traversal accepts.
\<close>

theorem match_offsets_within_node:
  assumes "m \<in> set (matches (search h searchText options rootElement))"
  shows "startOffset m \<le> endOffset m \<and>
         endOffset m \<le> length (textContent (node m)) \<and>
         (startOffset m < endOffset m \<longleftrightarrow> text' m \<noteq> []) \<and>
         text' m = take (endOffset m - startOffset m)
                     (drop (startOffset m) (textContent (node m))) \<and>
         node m \<in> set (getTextNodesGenerator rootElement)"
proof -
  let ?nodes = "getTextNodesGenerator rootElement"
  have inv: "list_all (\<lambda>m. well_formed_match m \<and> node m \<in> set ?nodes)
          (search_nodes p ?nodes [])" for p
    by (rule search_nodes_invariant) simp_all
  have "matches (search h searchText options rootElement) = [] \<or>
        (\<exists>p. matches (search h searchText options rootElement) = search_nodes p ?nodes [])"
    by (cases "buildPattern h searchText options")
       (auto simp add: search_def empty_result_def Let_def)
  with assms obtain p where "m \<in> set (search_nodes p ?nodes [])" by auto
  with inv [of p] have "well_formed_match m \<and> node m \<in> set ?nodes"
    by (simp add: list_all_iff)
  then have a: "startOffset m \<le> endOffset m"
    and b: "endOffset m \<le> length (textContent (node m))"
    and c: "endOffset m = startOffset m + length (text' m)"
    and d: "text' m = take (endOffset m - startOffset m)
                     (drop (startOffset m) (textContent (node m)))"
    and e: "node m \<in> set ?nodes"
    unfolding well_formed_match_def by blast+
  have "startOffset m < startOffset m + length (text' m) \<longleftrightarrow> text' m \<noteq> []"
    by simp
  then have "startOffset m < endOffset m \<longleftrightarrow> text' m \<noteq> []"
    by (simp only: c [symmetric])
  with a b d e show ?thesis by blast
qed

theorem match_offsets_within_node_witness:
  "startOffset (hd (matches (search fragment_host ''a.b'' (options_of False False False)
      (paragraph_doc ''a.b and axb'')))) = 0 \<and>
   endOffset (hd (matches (search fragment_host ''a.b'' (options_of False False False)
      (paragraph_doc ''a.b and axb'')))) = 3 \<and>
   3 \<le> length (textContent (node (hd (matches (search fragment_host ''a.b''
      (options_of False False False) (paragraph_doc ''a.b and axb''))))))"
proof -
  let ?ms = "matches (search fragment_host ''a.b'' (options_of False False False)
      (paragraph_doc ''a.b and axb''))"
  have s: "spans (search fragment_host ''a.b'' (options_of False False False)
      (paragraph_doc ''a.b and axb'')) = [(''a.b'', 0, 3)]"
    by code_simp
  then obtain m where ms: "?ms = [m]" and m: "startOffset m = 0" "endOffset m = 3"
    by (auto simp: spans_def)
  have "hd ?ms \<in> set ?ms" using ms by simp
  from match_offsets_within_node [OF this] ms m show ?thesis by simp
qed

section \<open>SearchEngine: literal queries\<close>

lemma escape_token_special:
  "c \<in> set special_characters \<Longrightarrow> escape_token c = Some (TChar c)"
  by (auto simp: escape_token_def special_characters_def syntax_characters_def)

lemma plain_token_ordinary:
  "c \<notin> set special_characters \<Longrightarrow>
   plain_token c = Some (TChar c) \<and> c \<noteq> backslash \<and> c \<noteq> CHR ''['' \<and> c \<noteq> CHR ''(''"
  by (auto simp: plain_token_def special_characters_def)

lemma lexer_escapeRegex:
  "lexer None (escapeRegex q @ rest) = foldr cons_token (map TChar q) (lexer None rest)"
proof (induction q)
  case Nil
  then show ?case by (simp add: escapeRegex_def)
next
  case (Cons c q)
  have e: "escapeRegex (c # q) =
      (if c \<in> set special_characters then [backslash, c] else [c]) @ escapeRegex q"
    by (simp add: escapeRegex_def)
  show ?case
  proof (cases "c \<in> set special_characters")
    case True
    with Cons show ?thesis by (simp add: e escape_token_special)
  next
    case False
    with Cons plain_token_ordinary [OF False] show ?thesis by (simp add: e)
  qed
qed

lemma lexer_word_boundary: "lexer None [backslash, CHR ''b''] = Parsed [TWordB]"
  by (simp add: escape_token_def syntax_characters_def backslash_def)

lemma foldr_cons_token: "foldr cons_token ts (Parsed us) = Parsed (ts @ us)"
  by (induction ts) simp_all

lemma lexer_literal: "lexer None (escapeRegex q) = Parsed (map TChar q)"
  using lexer_escapeRegex [of q "[]"] by (simp add: foldr_cons_token)

lemma lexer_whole_word:
  "lexer None (backslash # CHR ''b'' # escapeRegex q @ [backslash, CHR ''b'']) =
     Parsed (TWordB # map TChar q @ [TWordB])"
proof -
  have "lexer None (backslash # CHR ''b'' # escapeRegex q @ [backslash, CHR ''b'']) =
        cons_token TWordB (lexer None (escapeRegex q @ [backslash, CHR ''b'']))"
    by (simp add: escape_token_def syntax_characters_def backslash_def)
  then show ?thesis
    by (simp only: lexer_escapeRegex lexer_word_boundary foldr_cons_token cons_token.simps)
qed

lemma parse_tokens_chars:
  "q \<noteq> [] \<Longrightarrow>
   parse_tokens f stack (map TChar q @ ts) =
     parse_tokens (f\<lparr>terms := terms f @ map Chr q, previous := Atom\<rparr>) stack ts"
proof (induction q arbitrary: f)
  case Nil
  then show ?case by simp
next
  case (Cons c q)
  show ?case
  proof (cases "q = []")
    case True
    then show ?thesis by (simp add: push_term_def)
  next
    case False
    from Cons.IH [OF this, of "push_term Atom (Chr c) f"] show ?thesis
      by (simp add: push_term_def)
  qed
qed

lemma parse_literal:
  "parse_pattern (escapeRegex q) = Parsed (seq_of (map Chr q))"
proof (cases "q = []")
  case True
  then show ?thesis
    by (simp add: parse_pattern_def escapeRegex_def close_frame_def empty_frame_def)
next
  case False
  from parse_tokens_chars [OF False, of empty_frame "[]" "[]"] show ?thesis
    by (simp add: parse_pattern_def lexer_literal close_frame_def empty_frame_def)
qed

lemma parse_whole_word:
  "parse_pattern (backslash # CHR ''b'' # escapeRegex q @ [backslash, CHR ''b'']) =
     Parsed (seq_of (WordB # map Chr q @ [WordB]))"
proof (cases "q = []")
  case True
  have "parse_tokens empty_frame [] [TWordB, TWordB] = Parsed (seq_of [WordB, WordB])"
    by (simp add: close_frame_def empty_frame_def push_term_def)
  with True show ?thesis
    by (simp only: parse_pattern_def lexer_whole_word parsed.case list.map append_Nil)
next
  case False
  have "parse_tokens empty_frame [] (TWordB # map TChar q @ [TWordB]) =
        Parsed (seq_of (WordB # map Chr q @ [WordB]))"
    using parse_tokens_chars [OF False, of "push_term Assertion WordB empty_frame" "[]" "[TWordB]"]
    by (simp add: close_frame_def empty_frame_def push_term_def)
  then show ?thesis
    by (simp only: parse_pattern_def lexer_whole_word parsed.case)
qed

lemma ends_literal:
  "ends ic (seq_of (map Chr q @ rs)) s i =
     (if literal_at ic q s i then ends ic (seq_of rs) s (i + length q) else [])"
  by (induction q arbitrary: i) simp_all

lemma match_at_literal:
  "match_at (RegExp_of ic (seq_of (map Chr q))) s i = literal_match ic False q s i"
  using ends_literal [of ic q "[]" s i]
  by (simp add: RegExp_of_def literal_match_def)

lemma match_at_whole_word:
  "match_at (RegExp_of ic (Seq WordB (seq_of (map Chr q @ [WordB])))) s i =
     literal_match ic True q s i"
  using ends_literal [of ic q "[WordB]" s i]
  by (simp add: RegExp_of_def literal_match_def)


lemma buildPattern_literal:
  "\<not> isRegex options \<Longrightarrow>
   buildPattern fragment_host q options =
     Some (RegExp_of (\<not> caseSensitive options)
       (if wholeWord options then seq_of (WordB # map Chr q @ [WordB])
        else seq_of (map Chr q)))"
  by (simp add: buildPattern_def fragment_host_def fragment_RegExp_def parse_literal
      parse_whole_word Let_def)

lemma example_literal_dot:
  "spans (search fragment_host ''a.b'' (options_of False cs ww) (paragraph_doc ''a.b and axb'')) =
     [(''a.b'', 0, 3)]"
proof -
  have "spans (search fragment_host ''a.b'' (options_of False False False)
          (paragraph_doc ''a.b and axb'')) = [(''a.b'', 0, 3)]"
    by code_simp
  moreover have "spans (search fragment_host ''a.b'' (options_of False False True)
          (paragraph_doc ''a.b and axb'')) = [(''a.b'', 0, 3)]"
    by code_simp
  moreover have "spans (search fragment_host ''a.b'' (options_of False True False)
          (paragraph_doc ''a.b and axb'')) = [(''a.b'', 0, 3)]"
    by code_simp
  moreover have "spans (search fragment_host ''a.b'' (options_of False True True)
          (paragraph_doc ''a.b and axb'')) = [(''a.b'', 0, 3)]"
    by code_simp
  ultimately show ?thesis by (cases cs; cases ww) simp_all
qed

lemma example_regex_dot:
  "spans (search fragment_host ''a.b'' (options_of True True False) (paragraph_doc ''a.b and axb'')) =
     [(''a.b'', 0, 3), (''axb'', 8, 11)]"
  by code_simp

text \<open>
  C7. For every query and every options with \<open>isRegex\<close> false, \<open>buildPattern\<close>
  compiles a pattern that matches at a position exactly when the characters of the
  query stand there one by one (compared by upper-case form unless \<open>caseSensitive\<close>,
  and between two word boundaries when \<open>wholeWord\<close>), and the match is as long as
  the query: no character of the query acts as an operator. For each of the four
  combinations of the other two options, the query \<open>a.b\<close> in the text
  \<open>a.b and axb\<close> has exactly one match, \<open>a.b\<close> at offsets 0 to 3.
\<close>

theorem literal_queries_match_literally:
  "(\<not> isRegex options \<longrightarrow>
      (\<exists>p. buildPattern fragment_host q options = Some p \<and>
           (\<forall>s i. match_at p s i =
              literal_match (\<not> caseSensitive options) (wholeWord options) q s i))) \<and>
   (\<forall>cs ww. spans (search fragment_host ''a.b'' (options_of False cs ww)
        (paragraph_doc ''a.b and axb'')) = [(''a.b'', 0, 3)])"
proof (intro conjI impI allI)
  assume n: "\<not> isRegex options"
  show "\<exists>p. buildPattern fragment_host q options = Some p \<and>
           (\<forall>s i. match_at p s i =
              literal_match (\<not> caseSensitive options) (wholeWord options) q s i)"
    by (cases "wholeWord options")
       (simp_all add: buildPattern_literal [OF n] match_at_literal match_at_whole_word)
next
  fix cs ww
  show "spans (search fragment_host ''a.b'' (options_of False cs ww)
        (paragraph_doc ''a.b and axb'')) = [(''a.b'', 0, 3)]"
    by (rule example_literal_dot)
qed

theorem literal_queries_match_literally_witness:
  "\<exists>p. buildPattern fragment_host ''a+b'' (options_of False True False) = Some p \<and>
       match_at p ''xa+b aab'' 1 = Some 3 \<and>
       match_at p ''xa+b aab'' 5 = None"
proof -
  have n: "\<not> isRegex (options_of False True False)" by (simp add: options_of_def)
  from literal_queries_match_literally [of "options_of False True False" "''a+b''"] n
  obtain p where p: "buildPattern fragment_host ''a+b'' (options_of False True False) = Some p"
    and m: "\<And>s i. match_at p s i = literal_match False False ''a+b'' s i"
    by (auto simp: options_of_def)
  have "literal_match False False ''a+b'' ''xa+b aab'' 1 = Some 3"
    "literal_match False False ''a+b'' ''xa+b aab'' 5 = None"
    by (simp_all add: literal_match_def char_matches_def)
  with p m show ?thesis by simp
qed

section \<open>SearchEngine: validatePattern\<close>

lemma lexer_letters:
  "lexer None (replicate n (CHR ''a'')) = Parsed (replicate n (TChar (CHR ''a'')))"
  by (induction n) (simp_all add: backslash_def plain_token_def)

lemma long_bad_pattern_rejected:
  "new_RegExp fragment_host long_bad_pattern [] =
     Inl (''Invalid regular expression: /'' @ long_bad_pattern @ ''/: Unmatched ) '')"
  by (simp add: fragment_host_def fragment_RegExp_def parse_pattern_def long_bad_pattern_def
      backslash_def plain_token_def lexer_letters)

text \<open>
  C8, as stated, fails where its first two parts overlap: the length is checked
  first, so a pattern of more than 1000 characters that does not compile is rejected
  with the length message, not with the compiler's.
\<close>

theorem validatePattern_long_pattern_message:
  "new_RegExp fragment_host long_bad_pattern [] =
     Inl (''Invalid regular expression: /'' @ long_bad_pattern @ ''/: Unmatched ) '') \<and>
   validatePattern fragment_host long_bad_pattern =
     \<lparr>isValid = False, error = Some ''Pattern too long (max 1000 characters)''\<rparr> \<and>
   error (validatePattern fragment_host long_bad_pattern) \<noteq>
     Some (''Invalid regular expression: /'' @ long_bad_pattern @ ''/: Unmatched ) '')"
proof -
  have v: "validatePattern fragment_host long_bad_pattern =
     \<lparr>isValid = False, error = Some ''Pattern too long (max 1000 characters)''\<rparr>"
    by (simp add: validatePattern_def long_bad_pattern_def)
  show ?thesis
    by (simp add: long_bad_pattern_rejected v)
qed

lemma validate_unterminated_group:
  "validatePattern fragment_host ''(abc'' =
     \<lparr>isValid = False, error = Some ''Invalid regular expression: /(abc/: Unterminated group''\<rparr>"
  by code_simp

lemma validate_lowercase_word:
  "validatePattern fragment_host ''^[a-z]+$'' = \<lparr>isValid = True, error = None\<rparr>"
  by code_simp

text \<open>
  C8, amended. For every host: a pattern longer than 1000 characters is rejected with
  the length message; a pattern of at most 1000 characters that fails to compile is
  rejected with the compiler's message (so is \<open>(abc\<close>); and \<open>^[a-z]+$\<close> is
  accepted.
\<close>

theorem validatePattern_rejects_and_accepts:
  "(length pattern > 1000 \<longrightarrow>
      validatePattern h pattern =
        \<lparr>isValid = False, error = Some ''Pattern too long (max 1000 characters)''\<rparr>) \<and>
   (length pattern \<le> 1000 \<and> new_RegExp h pattern [] = Inl message \<longrightarrow>
      validatePattern h pattern = \<lparr>isValid = False, error = Some message\<rparr>) \<and>
   validatePattern fragment_host ''(abc'' =
     \<lparr>isValid = False, error = Some ''Invalid regular expression: /(abc/: Unterminated group''\<rparr> \<and>
   validatePattern fragment_host ''^[a-z]+$'' = \<lparr>isValid = True, error = None\<rparr>"
  using validate_unterminated_group validate_lowercase_word
  by (simp add: validatePattern_def)

theorem validatePattern_rejects_and_accepts_witness:
  "validatePattern fragment_host long_bad_pattern =
     \<lparr>isValid = False, error = Some ''Pattern too long (max 1000 characters)''\<rparr> \<and>
   new_RegExp fragment_host ''a)'' [] = Inl ''Invalid regular expression: /a)/: Unmatched ) '' \<and>
   validatePattern fragment_host ''a)'' =
     \<lparr>isValid = False, error = Some ''Invalid regular expression: /a)/: Unmatched ) ''\<rparr>"
proof -
  have l: "length long_bad_pattern > 1000" by (simp add: long_bad_pattern_def)
  have c: "new_RegExp fragment_host ''a)'' [] =
      Inl ''Invalid regular expression: /a)/: Unmatched ) ''"
    by (simp add: fragment_host_def fragment_RegExp_def parse_pattern_def backslash_def
        plain_token_def push_term_def empty_frame_def)
  have s: "length ''a)'' \<le> 1000" by simp
  from validatePattern_rejects_and_accepts [of long_bad_pattern fragment_host]
    validatePattern_rejects_and_accepts [of "''a)''" fragment_host
      "''Invalid regular expression: /a)/: Unmatched ) ''"]
    l c s
  show ?thesis by blast
qed

section \<open>SearchController\<close>

lemma same_events_refl: "same_events br br"
  by (simp add: same_events_def)

lemma same_events_trans: "same_events a b \<Longrightarrow> same_events b c \<Longrightarrow> same_events a c"
  by (simp add: same_events_def)

lemma clearHighlights_browser:
  assumes "clearHighlights (hm, br) = (out, hm', br')"
  shows "out = Returned \<and> same_events br br'"
  using assms
  by (auto simp: clearHighlights_def highlights_delete_def isSupported_def same_events_def
      split: if_splits option.splits)

lemma setCurrentMatch_browser:
  assumes "setCurrentMatch i (hm, br) = (out, hm', br')"
  shows "same_events br br' \<and> (isSupported br \<longrightarrow> out = Returned)"
  using assms
  by (auto simp: setCurrentMatch_def scrollToMatch_def highlights_delete_def highlights_set_def new_Highlight_def
      same_events_def isSupported_def Let_def split: if_splits option.splits)

lemma highlightMatches_browser:
  assumes "highlightMatches ms (hm, br) = (out, hm', br')"
  shows "out = Returned \<and> same_events br br'"
proof -
  obtain o1 h1 b1 where c: "clearHighlights (hm\<lparr>hm_matches := ms\<rparr>, br) = (o1, h1, b1)"
    by (metis prod_cases3)
  from clearHighlights_browser [OF c] have o1: "o1 = Returned" and e1: "same_events br b1"
    by simp_all
  show ?thesis
  proof (cases "length ms = 0 \<or> \<not> isSupported b1")
    case True
    with assms c o1 have "out = Returned" "br' = b1"
      by (auto simp: highlightMatches_def)
    with e1 show ?thesis by simp
  next
    case False
    then have "CSS_highlights b1 \<noteq> None"
      by (simp add: isSupported_def)
    then obtain registry where r: "CSS_highlights b1 = Some registry"
      by (cases "CSS_highlights b1") simp_all
    define b2 where "b2 = b1\<lparr>CSS_highlights := Some (registry(ALL_MATCHES_NAME \<mapsto> map range' ms))\<rparr>"
    have e2: "same_events b1 b2" and s2: "isSupported b2"
      using r by (simp_all add: b2_def same_events_def isSupported_def)
    from False assms c o1 r
    have "setCurrentMatch 0 (h1\<lparr>allMatchesHighlight := Some (map range' ms)\<rparr>, b2) = (out, hm', br')"
      by (simp add: highlightMatches_def highlights_set_def new_Highlight_def b2_def Let_def)
    from setCurrentMatch_browser [OF this] s2 have "same_events b2 br'" "out = Returned"
      by simp_all
    with e1 e2 show ?thesis by (blast intro: same_events_trans)
  qed
qed

lemma sc_search_nonblank:
  assumes "trim q \<noteq> []"
    and "list_all (\<lambda>x. searchDebounceTimer this = Some (timer_id x)) (timers br)"
  shows "sc_search q options d (this, br) =
           ((Returned, Some (Pending (next_timer_id br))),
            this\<lparr>searchDebounceTimer := Some (next_timer_id br)\<rparr>,
            br\<lparr>timers := [\<lparr>timer_id = next_timer_id br, delay = d, task_query = trim q,
                             task_options = options\<rparr>],
               next_timer_id := next_timer_id br + 1\<rparr>)"
proof (cases "searchDebounceTimer this")
  case None
  with assms(2) have "timers br = []" by (cases "timers br") simp_all
  with None assms(1) show ?thesis
    by (simp add: sc_search_def setTimeout_def Let_def)
next
  case (Some t)
  with assms(2) have "filter (\<lambda>x. timer_id x \<noteq> t) (timers br) = []"
    by (induction "timers br") (auto simp: list_all_iff filter_empty_conv)
  with Some assms(1) show ?thesis
    by (simp add: sc_search_def setTimeout_def clearTimeout_def Let_def)
qed

lemma search_calls_snoc:
  "search_calls (calls @ [(q, options, d)]) s = snd (sc_search q options d (search_calls calls s))"
  by (simp add: search_calls_def)

lemma search_calls_nonblank:
  assumes "list_all (\<lambda>x. searchDebounceTimer this = Some (timer_id x)) (timers br)"
    and "list_all (\<lambda>c. trim (fst c) \<noteq> []) (calls @ [(q, options, d)])"
  shows "search_calls (calls @ [(q, options, d)]) (this, br) =
           (this\<lparr>searchDebounceTimer := Some (next_timer_id br + length calls)\<rparr>,
            br\<lparr>timers := [\<lparr>timer_id = next_timer_id br + length calls, delay = d,
                             task_query = trim q, task_options = options\<rparr>],
               next_timer_id := next_timer_id br + length calls + 1\<rparr>)"
  using assms(2)
proof (induction calls arbitrary: q options d rule: rev_induct)
  case Nil
  then have nb: "trim q \<noteq> []" by simp
  show ?case
    using sc_search_nonblank [OF nb assms(1), of options d]
    by (simp add: search_calls_def)
next
  case (snoc c calls)
  obtain q' options' d' where c: "c = (q', options', d')" by (cases c)
  from snoc.prems have nb: "trim q \<noteq> []"
    and prev: "list_all (\<lambda>c. trim (fst c) \<noteq> []) (calls @ [(q', options', d')])"
    by (simp_all add: c)
  let ?t = "next_timer_id br + length calls"
  let ?this1 = "this\<lparr>searchDebounceTimer := Some ?t\<rparr>"
  let ?br1 = "br\<lparr>timers := [\<lparr>timer_id = ?t, delay = d', task_query = trim q',
                                 task_options = options'\<rparr>],
                  next_timer_id := ?t + 1\<rparr>"
  have ih: "search_calls (calls @ [c]) (this, br) = (?this1, ?br1)"
    using snoc.IH [OF prev] by (simp add: c)
  have inv: "list_all (\<lambda>x. searchDebounceTimer ?this1 = Some (timer_id x)) (timers ?br1)"
    by simp
  have "search_calls ((calls @ [c]) @ [(q, options, d)]) (this, br) =
          snd (sc_search q options d (?this1, ?br1))"
    by (simp only: search_calls_snoc ih)
  also have "\<dots> =
      (?this1\<lparr>searchDebounceTimer := Some (next_timer_id ?br1)\<rparr>,
       ?br1\<lparr>timers := [\<lparr>timer_id = next_timer_id ?br1, delay = d, task_query = trim q,
                             task_options = options\<rparr>],
             next_timer_id := next_timer_id ?br1 + 1\<rparr>)"
    by (simp only: sc_search_nonblank [OF nb inv] snd_conv)
  finally show ?case by simp
qed


lemma clear_fields:
  assumes "timers br = []"
  shows "fst (clear (this, br)) = Returned"
    and "same_events br (snd (snd (clear (this, br))))"
    and "searchDebounceTimer (fst (snd (clear (this, br)))) = None"
    and "onSearchCompleteCallback (fst (snd (clear (this, br)))) = onSearchCompleteCallback this"
    and "onMatchChangeCallback (fst (snd (clear (this, br)))) = onMatchChangeCallback this"
proof -
  obtain o1 hm1 b1 where c: "clearHighlights (highlightManager this, br) = (o1, hm1, b1)"
    by (metis prod_cases3)
  from clearHighlights_browser [OF c] have o1: "o1 = Returned" and e: "same_events br b1"
    by simp_all
  have e': "same_events br (clearTimeout t b1)" for t
    using e assms by (simp add: same_events_def clearTimeout_def isSupported_def)
  show "fst (clear (this, br)) = Returned"
    and "same_events br (snd (snd (clear (this, br))))"
    and "searchDebounceTimer (fst (snd (clear (this, br)))) = None"
    and "onSearchCompleteCallback (fst (snd (clear (this, br)))) = onSearchCompleteCallback this"
    and "onMatchChangeCallback (fst (snd (clear (this, br)))) = onMatchChangeCallback this"
    using c o1 e e'
    by (cases "searchDebounceTimer this"; simp add: clear_def Let_def)+
qed

lemma performSearch_fields:
  assumes "timers br = []"
  shows "fst (performSearch h q options (this, br)) =
           (Returned, Some (search h q options (document_body br)))"
    and "timers (snd (snd (performSearch h q options (this, br)))) = []"
    and "callback_calls (snd (snd (performSearch h q options (this, br)))) =
           callback_calls br @ expected_calls this (search h q options (document_body br))"
    and "resolved (snd (snd (performSearch h q options (this, br)))) = resolved br"
    and "searchResult (fst (snd (performSearch h q options (this, br)))) =
           Some (search h q options (document_body br))"
    and "currentQuery (fst (snd (performSearch h q options (this, br)))) = q"
    and "currentOptions (fst (snd (performSearch h q options (this, br)))) = options"
    and "searchDebounceTimer (fst (snd (performSearch h q options (this, br)))) = None"
proof -
  let ?r = "search h q options (document_body br)"
  obtain o1 this1 br1 where c: "clear (this, br) = (o1, this1, br1)"
    by (metis prod_cases3)
  from clear_fields [OF assms, of this] c
  have o1: "o1 = Returned" and e1: "same_events br br1"
    and f1: "searchDebounceTimer this1 = None"
      "onSearchCompleteCallback this1 = onSearchCompleteCallback this"
      "onMatchChangeCallback this1 = onMatchChangeCallback this"
    by simp_all
  have body: "document_body br1 = document_body br" using e1 by (simp add: same_events_def)
  let ?this3 = "this1\<lparr>currentQuery := q, currentOptions := options\<rparr>\<lparr>searchResult := Some ?r\<rparr>"
  obtain o2 hm2 br2 where
    h: "(if length (matches ?r) > 0
         then highlightMatches (matches ?r) (highlightManager ?this3, br1)
         else (Returned, highlightManager ?this3, br1)) = (o2, hm2, br2)"
    by (metis prod_cases3)
  have "o2 = Returned \<and> same_events br1 br2"
  proof (cases "length (matches ?r) > 0")
    case True
    with h have "highlightMatches (matches ?r) (highlightManager ?this3, br1) = (o2, hm2, br2)"
      by (simp only: if_True)
    from highlightMatches_browser [OF this] show ?thesis .
  next
    case False
    with h have "(Returned, highlightManager ?this3, br1) = (o2, hm2, br2)"
      by (simp only: if_False)
    then show ?thesis by (auto simp: same_events_refl)
  qed
  then have o2: "o2 = Returned" and e2: "same_events br br2"
    using e1 by (blast intro: same_events_trans)+
  have ev: "timers br2 = []" "callback_calls br2 = callback_calls br" "resolved br2 = resolved br"
    using e2 assms by (simp_all add: same_events_def)
  have ps: "performSearch h q options (this, br) =
      ((Returned, Some ?r),
       this1\<lparr>currentQuery := q, currentOptions := options, searchResult := Some ?r,
              highlightManager := hm2\<rparr>,
       br2\<lparr>callback_calls := callback_calls br2 @ expected_calls this ?r\<rparr>)"
    unfolding performSearch_def c o1
    apply (simp only: prod.case outcome.case Let_def body h o2)
    apply (cases "onSearchCompleteCallback this"; cases "onMatchChangeCallback this")
    apply (simp_all add: f1 expected_calls_def)
    done
  show "fst (performSearch h q options (this, br)) = (Returned, Some ?r)"
    and "timers (snd (snd (performSearch h q options (this, br)))) = []"
    and "callback_calls (snd (snd (performSearch h q options (this, br)))) =
           callback_calls br @ expected_calls this ?r"
    and "resolved (snd (snd (performSearch h q options (this, br)))) = resolved br"
    and "searchResult (fst (snd (performSearch h q options (this, br)))) = Some ?r"
    and "currentQuery (fst (snd (performSearch h q options (this, br)))) = q"
    and "currentOptions (fst (snd (performSearch h q options (this, br)))) = options"
    and "searchDebounceTimer (fst (snd (performSearch h q options (this, br)))) = None"
    unfolding ps using ev f1 by simp_all
qed

lemma run_timeout_pending:
  assumes "timers br = [x]"
  shows "run_timeout h t (this, br) =
           (if timer_id x = t
            then Some (Returned,
                   fst (snd (performSearch h (task_query x) (task_options x)
                     (this, br\<lparr>timers := []\<rparr>))),
                   (snd (snd (performSearch h (task_query x) (task_options x)
                     (this, br\<lparr>timers := []\<rparr>))))
                   \<lparr>resolved := resolved br @
                      [(t, search h (task_query x) (task_options x) (document_body br))]\<rparr>)
            else None)"
proof (cases "timer_id x = t")
  case False
  with assms show ?thesis by (simp add: run_timeout_def)
next
  case True
  let ?br0 = "br\<lparr>timers := []\<rparr>"
  have t0: "timers ?br0 = []" by simp
  let ?p = "performSearch h (task_query x) (task_options x) (this, ?br0)"
  let ?r = "search h (task_query x) (task_options x) (document_body br)"
  from performSearch_fields(1,4) [OF t0, of h "task_query x" "task_options x" this]
  have p: "fst ?p = (Returned, Some ?r)"
    and res: "resolved (snd (snd ?p)) = resolved br"
    by simp_all
  have aux: "(case P of
                ((Threw e, r), s1) \<Rightarrow> Some (Threw e, s1)
              | ((Returned, None), s1) \<Rightarrow> Some (Returned, s1)
              | ((Returned, Some result), this1, br1) \<Rightarrow>
                  Some (Returned, this1, br1\<lparr>resolved := resolved br1 @ [(t, result)]\<rparr>)) =
             Some (Returned, fst (snd P),
                   (snd (snd P))\<lparr>resolved := resolved (snd (snd P)) @ [(t, r0)]\<rparr>)"
    if "fst P = (Returned, Some r0)" for P :: "(outcome \<times> SearchResult option) \<times> sc_state" and r0
    using that by (auto split: prod.splits)
  from True assms show ?thesis
    unfolding run_timeout_def
    by (simp only: prod.case find.simps if_True filter.simps if_False simp_thms option.case
        aux [OF p] res)
qed

lemma run_timeout_none_pending:
  "timers br = [] \<Longrightarrow> run_timeout h t (this, br) = None"
  by (simp add: run_timeout_def)

text \<open>The invariant holds for a new controller with no timeout pending, and
  \<open>search\<close> with a query that is not blank, \<open>clear\<close> (so also \<open>search\<close> with a
  blank query) and a timeout that runs each keep it.\<close>

lemma debounce_inv_initial:
  "timers br = [] \<Longrightarrow> debounce_inv (this, br)"
  by (simp add: debounce_inv_def)

lemma debounce_inv_sc_search:
  assumes "debounce_inv (this, br)" "trim q \<noteq> []"
  shows "debounce_inv (snd (sc_search q options d (this, br)))"
  using assms sc_search_nonblank [of q this br options d]
  by (simp add: debounce_inv_def)

lemma debounce_inv_timers:
  assumes "debounce_inv (this, br)"
  shows "(case searchDebounceTimer this of
            None \<Rightarrow> timers br = []
          | Some t \<Rightarrow> filter (\<lambda>x. timer_id x \<noteq> t) (timers br) = [])"
  using assms
  by (cases "searchDebounceTimer this"; cases "timers br")
     (auto simp: debounce_inv_def list_all_iff filter_empty_conv)

lemma debounce_inv_clear:
  assumes "debounce_inv (this, br)"
  shows "debounce_inv (snd (clear (this, br)))"
proof -
  obtain o1 hm1 b1 where c: "clearHighlights (highlightManager this, br) = (o1, hm1, b1)"
    by (metis prod_cases3)
  from clearHighlights_browser [OF c] have o1: "o1 = Returned" and t: "timers b1 = timers br"
    by (simp_all add: same_events_def)
  show ?thesis
    using debounce_inv_timers [OF assms] c o1 t
    by (cases "searchDebounceTimer this")
       (simp_all add: clear_def Let_def debounce_inv_def clearTimeout_def)
qed

lemma debounce_inv_run_timeout:
  assumes "debounce_inv (this, br)" "run_timeout h t (this, br) = Some (out, s')"
  shows "debounce_inv s'"
proof -
  from assms(2) obtain x where x: "find (\<lambda>x. timer_id x = t) (timers br) = Some x"
    by (auto simp: run_timeout_def split: option.splits)
  then have "x \<in> set (timers br)" "timer_id x = t"
    by (auto simp: find_Some_iff)
  with assms(1) have "searchDebounceTimer this = Some t"
    by (auto simp: debounce_inv_def list_all_iff)
  with debounce_inv_timers [OF assms(1)]
  have f: "filter (\<lambda>y. timer_id y \<noteq> t) (timers br) = []" by simp
  let ?br0 = "br\<lparr>timers := []\<rparr>"
  let ?p = "performSearch h (task_query x) (task_options x) (this, ?br0)"
  have t0: "timers ?br0 = []" by simp
  from performSearch_fields(1,2) [OF t0, of h "task_query x" "task_options x" this]
  have p: "fst ?p = (Returned, Some (search h (task_query x) (task_options x) (document_body br)))"
    and tm: "timers (snd (snd ?p)) = []"
    by simp_all
  obtain this1 br1 where s1: "snd ?p = (this1, br1)" by (cases "snd ?p")
  with p have pe: "?p = ((Returned, Some (search h (task_query x) (task_options x)
      (document_body br))), this1, br1)"
    by (metis prod.collapse)
  from tm s1 have "timers br1 = []" by simp
  with assms(2) x f pe show ?thesis
    by (auto simp: run_timeout_def debounce_inv_def)
qed

text \<open>
  C3. Take any state in which every pending timeout is the one the controller
  remembers, and any non-empty sequence of \<open>search\<close> calls whose queries are not
  blank, made with no timeout running in between. Afterwards exactly one timeout is
  pending, the last call's, with the last call's trimmed query, options and delay;
  no callback has been called and no promise resolved. No other timeout can run. When
  the pending one runs it returns, leaves no timeout pending (so nothing can run after
  it), has called the completion callback, if one is registered, exactly once with the
  result of searching for the last query (followed by the match-change callback when
  there is a match), has resolved the last call's promise with that result, and has
  stored that result and query in the controller.
\<close>

theorem debounce_last_call_wins:
  assumes "debounce_inv (this, br)"
    and "list_all (\<lambda>c. trim (fst c) \<noteq> []) (calls @ [(q, options, d)])"
  shows
    "timers (snd (search_calls (calls @ [(q, options, d)]) (this, br))) =
       [\<lparr>timer_id = next_timer_id br + length calls, delay = d, task_query = trim q,
         task_options = options\<rparr>] \<and>
     callback_calls (snd (search_calls (calls @ [(q, options, d)]) (this, br))) =
       callback_calls br \<and>
     resolved (snd (search_calls (calls @ [(q, options, d)]) (this, br))) = resolved br \<and>
     (\<forall>t. t \<noteq> next_timer_id br + length calls \<longrightarrow>
        run_timeout h t (search_calls (calls @ [(q, options, d)]) (this, br)) = None) \<and>
     (\<exists>this' br'.
        run_timeout h (next_timer_id br + length calls)
          (search_calls (calls @ [(q, options, d)]) (this, br)) = Some (Returned, this', br') \<and>
        timers br' = [] \<and>
        (\<forall>t. run_timeout h t (this', br') = None) \<and>
        callback_calls br' =
          callback_calls br @ expected_calls this (search h (trim q) options (document_body br)) \<and>
        resolved br' =
          resolved br @
            [(next_timer_id br + length calls, search h (trim q) options (document_body br))] \<and>
        searchResult this' = Some (search h (trim q) options (document_body br)) \<and>
        currentQuery this' = trim q \<and> currentOptions this' = options)"
proof -
  let ?t = "next_timer_id br + length calls"
  let ?x = "\<lparr>timer_id = ?t, delay = d, task_query = trim q, task_options = options\<rparr>"
  let ?this1 = "this\<lparr>searchDebounceTimer := Some ?t\<rparr>"
  let ?br1 = "br\<lparr>timers := [?x], next_timer_id := ?t + 1\<rparr>"
  let ?br0 = "?br1\<lparr>timers := []\<rparr>"
  let ?r = "search h (trim q) options (document_body br)"
  have inv: "list_all (\<lambda>x. searchDebounceTimer this = Some (timer_id x)) (timers br)"
    using assms(1) by (simp add: debounce_inv_def)
  have s: "search_calls (calls @ [(q, options, d)]) (this, br) = (?this1, ?br1)"
    using search_calls_nonblank [OF inv assms(2)] by simp
  have tm: "timers ?br1 = [?x]" by simp
  have t0: "timers ?br0 = []" by simp
  note run = run_timeout_pending [OF tm, of h _ ?this1]
  note ps = performSearch_fields [OF t0, of h "trim q" options ?this1]
  let ?this' = "fst (snd (performSearch h (trim q) options (?this1, ?br0)))"
  let ?br' = "(snd (snd (performSearch h (trim q) options (?this1, ?br0))))
                \<lparr>resolved := resolved br @ [(?t, ?r)]\<rparr>"
  have r1: "run_timeout h ?t (?this1, ?br1) = Some (Returned, ?this', ?br')"
    using run [of ?t] by simp
  have r2: "run_timeout h t (?this1, ?br1) = None" if "t \<noteq> ?t" for t
    using run [of t] that by simp
  have t': "timers ?br' = []" using ps(2) by simp
  have none: "run_timeout h t (?this', ?br') = None" for t
    using run_timeout_none_pending [OF t'] .
  have cc: "callback_calls ?br' = callback_calls br @ expected_calls this ?r"
    using ps(3) by (simp add: expected_calls_def)
  have rs: "resolved ?br' = resolved br @ [(?t, ?r)]" by simp
  have f: "searchResult ?this' = Some ?r" "currentQuery ?this' = trim q"
    "currentOptions ?this' = options"
    using ps(5,6,7) by simp_all
  show ?thesis
    unfolding s
  proof (intro conjI)
    show "\<forall>t. t \<noteq> ?t \<longrightarrow> run_timeout h t (?this1, ?br1) = None"
      using r2 by blast
    show "\<exists>this' br'.
        run_timeout h ?t (?this1, ?br1) = Some (Returned, this', br') \<and>
        timers br' = [] \<and>
        (\<forall>t. run_timeout h t (this', br') = None) \<and>
        callback_calls br' = callback_calls br @ expected_calls this ?r \<and>
        resolved br' = resolved br @ [(?t, ?r)] \<and>
        searchResult this' = Some ?r \<and>
        currentQuery this' = trim q \<and> currentOptions this' = options"
      using r1 t' none cc rs f by blast
  qed simp_all
qed

text \<open>
  C10. When the manager holds at least one match and a match-change callback is
  registered, \<open>navigateToMatch(i)\<close> with \<open>i\<close> below 0 or not below the number of
  matches returns with the controller (match sequence and current index included)
  exactly as it was; the only effects are the warning of \<open>setCurrentMatch\<close> and one
  call of the callback with the unchanged current index and total.
\<close>

theorem navigateToMatch_out_of_range:
  assumes "hasMatches (highlightManager this)"
    and "onMatchChangeCallback this = Some cb"
    and "i < 0 \<or> int (getTotalMatches (highlightManager this)) \<le> i"
  shows "navigateToMatch i (this, br) =
           (Returned, this,
            br\<lparr>console_warn := console_warn br @ [i],
               callback_calls := callback_calls br @
                 [MatchChange cb (getCurrentIndex (highlightManager this))
                    (getTotalMatches (highlightManager this))]\<rparr>)"
proof -
  have "setCurrentMatch i (highlightManager this, br) =
          (Returned, highlightManager this, br\<lparr>console_warn := console_warn br @ [i]\<rparr>)"
    using assms(3) by (auto simp: setCurrentMatch_def getTotalMatches_def)
  with assms(1,2) show ?thesis
    by (simp add: navigateToMatch_def)
qed

theorem navigateToMatch_out_of_range_witness:
  "navigateToMatch 5 (controller_with_matches, new_browser True (paragraph_doc ''ab ab ab'')) =
     (Returned, controller_with_matches,
      (new_browser True (paragraph_doc ''ab ab ab''))
        \<lparr>console_warn := [5], callback_calls := [MatchChange 7 0 3]\<rparr>) \<and>
   navigateToMatch (- 1) (controller_with_matches, new_browser False (paragraph_doc ''ab ab ab'')) =
     (Returned, controller_with_matches,
      (new_browser False (paragraph_doc ''ab ab ab''))
        \<lparr>console_warn := [- 1], callback_calls := [MatchChange 7 0 3]\<rparr>)"
  using navigateToMatch_out_of_range [of controller_with_matches 7 5
      "new_browser True (paragraph_doc ''ab ab ab'')"]
    navigateToMatch_out_of_range [of controller_with_matches 7 "- 1"
      "new_browser False (paragraph_doc ''ab ab ab'')"]
  by (simp add: controller_with_matches_def new_SearchController_def three_matches_def
      hasMatches_def getTotalMatches_def getCurrentIndex_def new_browser_def)

lemma trim_x: "trim ''x'' = ''x''" "trim ''xy'' = ''xy''" "trim ''xyz'' = ''xyz''"
  by (simp_all add: trim_def is_white_space_def)

lemma search_xyz:
  "matches (search fragment_host ''xyz'' (options_of False False False) (paragraph_doc ''x xy xyz'')) \<noteq> [] \<and>
   totalCount (search fragment_host ''xyz'' (options_of False False False) (paragraph_doc ''x xy xyz'')) = 1"
  by code_simp

theorem debounce_last_call_wins_witness:
  "timers (snd (search_calls
      [(''x'', options_of False False False, 300), (''xy'', options_of False False False, 300),
       (''xyz'', options_of False False False, 300)]
      (listening_controller, new_browser True (paragraph_doc ''x xy xyz'')))) =
     [\<lparr>timer_id = 2, delay = 300, task_query = ''xyz'',
       task_options = options_of False False False\<rparr>] \<and>
   run_timeout fragment_host 0 (search_calls
      [(''x'', options_of False False False, 300), (''xy'', options_of False False False, 300),
       (''xyz'', options_of False False False, 300)]
      (listening_controller, new_browser True (paragraph_doc ''x xy xyz''))) = None \<and>
   run_timeout fragment_host 1 (search_calls
      [(''x'', options_of False False False, 300), (''xy'', options_of False False False, 300),
       (''xyz'', options_of False False False, 300)]
      (listening_controller, new_browser True (paragraph_doc ''x xy xyz''))) = None \<and>
   (\<exists>this' br'.
      run_timeout fragment_host 2 (search_calls
        [(''x'', options_of False False False, 300), (''xy'', options_of False False False, 300),
         (''xyz'', options_of False False False, 300)]
        (listening_controller, new_browser True (paragraph_doc ''x xy xyz''))) =
        Some (Returned, this', br') \<and>
      timers br' = [] \<and>
      callback_calls br' =
        [SearchComplete 1 (search fragment_host ''xyz'' (options_of False False False)
           (paragraph_doc ''x xy xyz'')),
         MatchChange 2 0 1] \<and>
      resolved br' =
        [(2, search fragment_host ''xyz'' (options_of False False False)
           (paragraph_doc ''x xy xyz''))] \<and>
      currentQuery this' = ''xyz'')"
proof -
  let ?o = "options_of False False False"
  let ?br = "new_browser True (paragraph_doc ''x xy xyz'')"
  let ?calls = "[(''x'', ?o, 300), (''xy'', ?o, 300)] :: (string \<times> SearchOptions \<times> int) list"
  let ?r = "search fragment_host ''xyz'' ?o (paragraph_doc ''x xy xyz'')"
  have h1: "debounce_inv (listening_controller, ?br)"
    by (simp add: debounce_inv_def new_browser_def)
  have h2: "list_all (\<lambda>c. trim (fst c) \<noteq> []) (?calls @ [(''xyz'', ?o, 300)])"
    by (simp add: trim_x)
  have n: "next_timer_id ?br + length ?calls = 2" "document_body ?br = paragraph_doc ''x xy xyz''"
    "callback_calls ?br = []" "resolved ?br = []"
    by (simp_all add: new_browser_def)
  have e: "expected_calls listening_controller ?r = [SearchComplete 1 ?r, MatchChange 2 0 1]"
    using search_xyz
    by (simp add: expected_calls_def listening_controller_def onMatchChange_def
        onSearchComplete_def)
  note w = debounce_last_call_wins [OF h1 h2, of fragment_host, unfolded n trim_x e]
  from w have a: "timers (snd (search_calls (?calls @ [(''xyz'', ?o, 300)])
      (listening_controller, ?br))) =
      [\<lparr>timer_id = 2, delay = 300, task_query = ''xyz'', task_options = ?o\<rparr>]"
    by blast
  from w have b: "run_timeout fragment_host t (search_calls (?calls @ [(''xyz'', ?o, 300)])
      (listening_controller, ?br)) = None" if "t \<noteq> 2" for t
    using that by blast
  from w obtain this' br' where c: "run_timeout fragment_host 2
      (search_calls (?calls @ [(''xyz'', ?o, 300)]) (listening_controller, ?br)) =
        Some (Returned, this', br')"
      "timers br' = []" "callback_calls br' = [] @ [SearchComplete 1 ?r, MatchChange 2 0 1]"
      "resolved br' = [] @ [(2, ?r)]" "currentQuery this' = ''xyz''"
    by blast
  show ?thesis
    using a b [of 0] b [of 1] c by simp
qed

end
